theory Spec2Isabelle
  imports Main "HOL-Library.AList"
begin

section \<open>Python strings\<close>

text \<open>
  A Python \<^verbatim>\<open>str\<close> is a sequence of Unicode code points and \<^verbatim>\<open>len\<close> counts code
  points, so a string is modelled as a list of code points (natural numbers).
  \<open>lit\<close> turns an ASCII literal of the source into such a list.
\<close>

type_synonym codepoint = nat
type_synonym pystr = "codepoint list"

definition lit :: "string \<Rightarrow> pystr" where
  "lit s = map of_char s"

text \<open>
  The whitespace of \<^verbatim>\<open>str.split()\<close>, \<^verbatim>\<open>str.strip()\<close> and of \<^verbatim>\<open>\s\<close> in a \<^verbatim>\<open>str\<close>
  pattern: the code points for which \<^verbatim>\<open>str.isspace\<close> holds (U+0009..U+000D,
  U+001C..U+0020, U+0085, U+00A0, U+1680, U+2000..U+200A, U+2028, U+2029, U+202F,
  U+205F, U+3000).
\<close>

definition isspace :: "codepoint \<Rightarrow> bool" where
  "isspace c =
     ((9 \<le> c \<and> c \<le> 13) \<or> (28 \<le> c \<and> c \<le> 32) \<or> c = 133 \<or> c = 160 \<or> c = 5760 \<or>
      (8192 \<le> c \<and> c \<le> 8202) \<or> c = 8232 \<or> c = 8233 \<or> c = 8239 \<or> c = 8287 \<or>
      c = 12288)"

text \<open>
  \<^verbatim>\<open>text.split()\<close> with no argument: the maximal runs of non-whitespace, in order.
  \<open>split_from w s\<close> scans \<open>s\<close> with \<open>w\<close> the word read so far.
\<close>

fun split_from :: "pystr \<Rightarrow> pystr \<Rightarrow> pystr list" where
  "split_from w [] = (if w = [] then [] else [w])"
| "split_from w (c # cs) =
     (if isspace c then (if w = [] then split_from [] cs else w # split_from [] cs)
      else split_from (w @ [c]) cs)"

definition str_split :: "pystr \<Rightarrow> pystr list" where
  "str_split s = split_from [] s"

text \<open>\<^verbatim>\<open>sep.join(ws)\<close>.\<close>

fun str_join :: "pystr \<Rightarrow> pystr list \<Rightarrow> pystr" where
  "str_join sep [] = []"
| "str_join sep [w] = w"
| "str_join sep (w # v # ws) = w @ sep @ str_join sep (v # ws)"

text \<open>\<^verbatim>\<open>s.strip()\<close> with no argument: whitespace removed at both ends.\<close>

definition str_strip :: "pystr \<Rightarrow> pystr" where
  "str_strip s = rev (dropWhile isspace (rev (dropWhile isspace s)))"

definition space :: pystr where
  "space = lit '' ''"

section \<open>AITrainingDataPreparer\<close>

record preparer =
  max_chunk_length :: int

text \<open>
  The loop of \<^verbatim>\<open>chunk_text\<close> over the words, with its three variables \<^verbatim>\<open>chunks\<close>,
  \<^verbatim>\<open>current_chunk\<close> and \<^verbatim>\<open>current_length\<close> as the state.
\<close>

fun chunk_loop ::
  "preparer \<Rightarrow> pystr list \<Rightarrow> pystr list \<Rightarrow> pystr list \<Rightarrow> int \<Rightarrow> pystr list \<times> pystr list \<times> int"
where
  "chunk_loop self [] chunks current_chunk current_length =
     (chunks, current_chunk, current_length)"
| "chunk_loop self (word # words) chunks current_chunk current_length =
     (if current_length + int (length word) + 1 \<le> max_chunk_length self
      then chunk_loop self words chunks (current_chunk @ [word])
             (current_length + (int (length word) + 1))
      else chunk_loop self words
             (if current_chunk \<noteq> [] then chunks @ [str_join space current_chunk] else chunks)
             [word] (int (length word)))"

definition chunk_text :: "preparer \<Rightarrow> pystr \<Rightarrow> pystr list" where
  "chunk_text self text =
     (case chunk_loop self (str_split text) [] [] 0 of
        (chunks, current_chunk, current_length) \<Rightarrow>
          if current_chunk \<noteq> [] then chunks @ [str_join space current_chunk] else chunks)"

text \<open>
  \<^verbatim>\<open>prepare_for_training\<close> and the batch it reads are given after the extractor, whose
  records it consumes.
\<close>

section \<open>YouTubeTranscriptExtractor: the URL parser\<close>

definition newline :: codepoint where
  "newline = 10"

text \<open>The character class \<^verbatim>\<open>[^&\n?#]\<close> of the capturing group.\<close>

definition id_char :: "codepoint \<Rightarrow> bool" where
  "id_char c = (c \<notin> set (lit ''&?#'') \<and> c \<noteq> newline)"

fun strip_prefix :: "pystr \<Rightarrow> pystr \<Rightarrow> pystr option" where
  "strip_prefix [] s = Some s"
| "strip_prefix (p # ps) [] = None"
| "strip_prefix (p # ps) (c # cs) = (if p = c then strip_prefix ps cs else None)"

text \<open>
  The three patterns of \<^verbatim>\<open>extract_video_id\<close> have one shape,
  \<^verbatim>\<open>(?:https?://)?(?:www\.)?LITERAL([^&\n?#]+)\<close>, and differ in the literal only. The
  matcher below follows the backtracking of \<^verbatim>\<open>re\<close> at one start position: the group
  is greedy and ends the pattern, so it takes the longest run of allowed characters and
  needs at least one; each optional part is tried present first, absent second. The
  result is the text of group 1.
\<close>

definition match_group :: "pystr \<Rightarrow> pystr option" where
  "match_group s = (let g = takeWhile id_char s in if g = [] then None else Some g)"

definition match_literal :: "pystr \<Rightarrow> pystr \<Rightarrow> pystr option" where
  "match_literal literal s =
     (case strip_prefix literal s of None \<Rightarrow> None | Some r \<Rightarrow> match_group r)"

definition match_www :: "pystr \<Rightarrow> pystr \<Rightarrow> pystr option" where
  "match_www literal s =
     (case strip_prefix (lit ''www.'') s of
        None \<Rightarrow> match_literal literal s
      | Some r \<Rightarrow>
          (case match_literal literal r of
             Some g \<Rightarrow> Some g
           | None \<Rightarrow> match_literal literal s))"

definition match_scheme :: "pystr \<Rightarrow> pystr \<Rightarrow> pystr option" where
  "match_scheme literal s =
     (case strip_prefix (lit ''http'') s of
        None \<Rightarrow> None
      | Some r \<Rightarrow>
          (case (case strip_prefix (lit ''s'') r of
                   None \<Rightarrow> None
                 | Some r1 \<Rightarrow>
                     (case strip_prefix (lit ''://'') r1 of
                        None \<Rightarrow> None
                      | Some r2 \<Rightarrow> match_www literal r2)) of
             Some g \<Rightarrow> Some g
           | None \<Rightarrow>
               (case strip_prefix (lit ''://'') r of
                  None \<Rightarrow> None
                | Some r2 \<Rightarrow> match_www literal r2)))"

definition match_here :: "pystr \<Rightarrow> pystr \<Rightarrow> pystr option" where
  "match_here literal s =
     (case match_scheme literal s of
        Some g \<Rightarrow> Some g
      | None \<Rightarrow> match_www literal s)"

text \<open>\<^verbatim>\<open>re.search\<close>: the match at the leftmost start position that has one.\<close>

fun re_search :: "pystr \<Rightarrow> pystr \<Rightarrow> pystr option" where
  "re_search literal [] = match_here literal []"
| "re_search literal (c # cs) =
     (case match_here literal (c # cs) of
        Some g \<Rightarrow> Some g
      | None \<Rightarrow> re_search literal cs)"

definition patterns :: "pystr list" where
  "patterns = [lit ''youtube.com/watch?v='', lit ''youtu.be/'', lit ''youtube.com/embed/'']"

fun first_match :: "pystr list \<Rightarrow> pystr \<Rightarrow> pystr option" where
  "first_match [] url = None"
| "first_match (pattern # rest) url =
     (case re_search pattern url of
        Some g \<Rightarrow> Some g
      | None \<Rightarrow> first_match rest url)"

definition extract_video_id :: "pystr \<Rightarrow> pystr option" where
  "extract_video_id url = first_match patterns url"

section \<open>The text normalizer\<close>

text \<open>
  \<^verbatim>\<open>re.sub(r'\[.*?\]', '', text)\<close> for the delimiters \<open>l\<close> and \<open>r\<close>: at an opening
  delimiter the lazy \<^verbatim>\<open>.*?\<close> runs to the first closing delimiter, and there is a match
  only if no newline comes before it (\<^verbatim>\<open>.\<close> does not match a newline); the match is
  removed and the scan goes on behind it.
\<close>

function sub_delimited :: "codepoint \<Rightarrow> codepoint \<Rightarrow> pystr \<Rightarrow> pystr" where
  "sub_delimited l r [] = []"
| "sub_delimited l r (c # cs) =
     (if c = l then
        (case dropWhile (\<lambda>x. x \<noteq> r \<and> x \<noteq> newline) cs of
           [] \<Rightarrow> c # sub_delimited l r cs
         | d # rest \<Rightarrow> if d = r then sub_delimited l r rest else c # sub_delimited l r cs)
      else c # sub_delimited l r cs)"
  by pat_completeness auto
termination
proof (relation "measure (\<lambda>(l, r, s). length s)")
  fix l r :: codepoint and c d :: codepoint and cs rest :: pystr
  assume "dropWhile (\<lambda>x. x \<noteq> r \<and> x \<noteq> newline) cs = d # rest"
  then have "length (d # rest) \<le> length cs"
    by (metis length_dropWhile_le)
  then show "((l, r, rest), (l, r, c # cs)) \<in> measure (\<lambda>(l, r, s). length s)"
    by simp
qed simp_all

text \<open>\<^verbatim>\<open>re.sub(r'\n+', ' ', text)\<close> and \<^verbatim>\<open>re.sub(r'\s+', ' ', text)\<close>: every maximal run
  of characters of the class becomes one space.\<close>

function sub_runs :: "(codepoint \<Rightarrow> bool) \<Rightarrow> pystr \<Rightarrow> pystr" where
  "sub_runs P [] = []"
| "sub_runs P (c # cs) =
     (if P c then space @ sub_runs P (dropWhile P cs) else c # sub_runs P cs)"
  by pat_completeness auto
termination
proof (relation "measure (\<lambda>(P, s). length s)")
  fix P :: "codepoint \<Rightarrow> bool" and c :: codepoint and cs :: pystr
  have "length (dropWhile P cs) \<le> length cs"
    by (rule length_dropWhile_le)
  then show "((P, dropWhile P cs), (P, c # cs)) \<in> measure (\<lambda>(P, s). length s)"
    by simp
qed simp_all

definition clean_transcript_text :: "pystr \<Rightarrow> pystr" where
  "clean_transcript_text text =
     (let text = sub_delimited (of_char CHR ''['') (of_char CHR '']'') text;
          text = sub_delimited (of_char CHR ''('') (of_char CHR '')'') text;
          text = sub_runs (\<lambda>c. c = newline) text;
          text = sub_runs isspace text
      in str_strip text)"

section \<open>The transcript fetcher\<close>

text \<open>
  One entry of the list the captioning service returns has a text and a start time;
  its duration may be missing (\<^verbatim>\<open>entry.get('duration', 0)\<close>). The times are only
  copied, so their type \<open>'t\<close> is left open.
\<close>

record 't cue =
  cue_text :: pystr
  cue_start :: 't
  cue_duration :: "'t option"

record 't segment =
  seg_start :: 't
  seg_duration :: 't
  seg_text :: pystr

text \<open>
  The dictionaries of a batch: \<open>Success\<close> has \<^verbatim>\<open>status\<close> \<^verbatim>\<open>'success'\<close>, \<open>Failed\<close> has
  \<^verbatim>\<open>'failed'\<close>, an \<^verbatim>\<open>error\<close> and, when the fetcher built it, the \<^verbatim>\<open>video_id\<close>.
\<close>

datatype 't video_record =
    Success (the_video_id: pystr) (the_full_text: pystr) (the_segments: "'t segment list")
      (the_total_segments: nat)
  | Failed (failed_video_id: "pystr option") (the_error: pystr)

definition status :: "'t video_record \<Rightarrow> pystr" where
  "status data = (case data of Success _ _ _ _ \<Rightarrow> lit ''success'' | Failed _ _ \<Rightarrow> lit ''failed'')"

text \<open>
  \<^verbatim>\<open>YouTubeTranscriptApi.get_transcript(video_id)\<close> is a call to the outside world: in a
  state \<open>'s\<close> of that world it either raises an error \<open>e\<close> (an instance of \<^verbatim>\<open>Exception\<close>, as
  the errors of the service are), given as \<open>Inl (str e)\<close>, or returns the entries, and
  leaves the world in a new state.
\<close>

type_synonym ('s, 't) service = "'s \<Rightarrow> pystr \<Rightarrow> (pystr + 't cue list) \<times> 's"

fun transcript_loop ::
  "('t::zero) cue list \<Rightarrow> pystr \<Rightarrow> 't segment list \<Rightarrow> pystr \<times> 't segment list"
where
  "transcript_loop [] full_text processed_segments = (full_text, processed_segments)"
| "transcript_loop (entry # transcript_list) full_text processed_segments =
     (let cleaned_text = clean_transcript_text (cue_text entry) in
      transcript_loop transcript_list (full_text @ cleaned_text @ space)
        (processed_segments @
         [\<lparr>seg_start = cue_start entry,
           seg_duration = (case cue_duration entry of None \<Rightarrow> 0 | Some d \<Rightarrow> d),
           seg_text = cleaned_text\<rparr>]))"

text \<open>
  The \<^verbatim>\<open>try\<close> block with its \<^verbatim>\<open>except Exception\<close>: an exception of the service becomes a
  \<open>Failed\<close> record and is not raised again.
\<close>

definition extract_single_transcript ::
  "('s, 't::zero) service \<Rightarrow> 's \<Rightarrow> pystr \<Rightarrow> 't video_record \<times> 's"
where
  "extract_single_transcript get_transcript world video_id =
     (case get_transcript world video_id of
        (Inl e, world') \<Rightarrow> (Failed (Some video_id) e, world')
      | (Inr transcript_list, world') \<Rightarrow>
          (case transcript_loop transcript_list [] [] of
             (full_text, processed_segments) \<Rightarrow>
               (Success video_id (str_strip full_text) processed_segments
                  (length processed_segments), world')))"

section \<open>The batch extractor\<close>

text \<open>
  A batch is a Python \<^verbatim>\<open>dict\<close>: the keys in insertion order, each once.
  \<^verbatim>\<open>results[k] = v\<close> is \<open>AList.update k v results\<close>, which replaces the value of a
  key that is present, in its place, and appends a new key.
\<close>

type_synonym 't batch = "(pystr \<times> 't video_record) list"

definition invalid_url :: "'t video_record" where
  "invalid_url = Failed None (lit ''Invalid YouTube URL'')"

fun extract_loop ::
  "('s, 't::zero) service \<Rightarrow> pystr list \<Rightarrow> 't batch \<Rightarrow> 's \<Rightarrow> 't batch \<times> 's"
where
  "extract_loop get_transcript [] results world = (results, world)"
| "extract_loop get_transcript (url # urls) results world =
     (case extract_video_id url of
        None \<Rightarrow> extract_loop get_transcript urls (AList.update url invalid_url results) world
      | Some video_id \<Rightarrow>
          if video_id \<noteq> [] then
            (case extract_single_transcript get_transcript world video_id of
               (result, world') \<Rightarrow>
                 extract_loop get_transcript urls (AList.update video_id result results) world')
          else extract_loop get_transcript urls (AList.update url invalid_url results) world)"

definition extract_transcripts ::
  "('s, 't::zero) service \<Rightarrow> 's \<Rightarrow> pystr list \<Rightarrow> 't batch \<times> 's"
where
  "extract_transcripts get_transcript world urls = extract_loop get_transcript urls [] world"

section \<open>The exporter and the file system\<close>

text \<open>
  The part of the file system the extractor touches: the directories that exist and the
  files with their contents. Paths are compared as strings (POSIX \<^verbatim>\<open>os.path\<close>, no
  normalisation, no links) and permissions are left out.
\<close>

record filesystem =
  dirs :: "pystr set"
  files :: "pystr \<rightharpoonup> pystr"

datatype exn = ValueError pystr | OSError pystr

definition slash :: codepoint where
  "slash = of_char CHR ''/''"


text \<open>\<^verbatim>\<open>os.path.join(a, b)\<close> and \<^verbatim>\<open>os.path.dirname(p)\<close>.\<close>

definition path_join :: "pystr \<Rightarrow> pystr \<Rightarrow> pystr" where
  "path_join a b =
     (if b \<noteq> [] \<and> hd b = slash then b
      else if a = [] \<or> last a = slash then a @ b
      else a @ [slash] @ b)"

definition dirname :: "pystr \<Rightarrow> pystr" where
  "dirname p =
     (let head = rev (dropWhile (\<lambda>c. c \<noteq> slash) (rev p)) in
      if head \<noteq> [] \<and> \<not> list_all (\<lambda>c. c = slash) head
      then rev (dropWhile (\<lambda>c. c = slash) (rev head))
      else head)"



text \<open>
  \<^verbatim>\<open>open(filepath, 'w')\<close> followed by the writes: the file gets the content when its
  directory exists (the working directory and the root always do) and the path is not
  a directory; otherwise \<^verbatim>\<open>open\<close> raises an \<^verbatim>\<open>OSError\<close> and nothing changes. The
  directory is looked up under the name \<^verbatim>\<open>os.path.dirname\<close> gives, without resolving
  \<^verbatim>\<open>..\<close>; a path that \<^verbatim>\<open>open\<close> refuses before it reaches the file system (one with a
  NUL character, or one that cannot be encoded) is not modelled.
\<close>

definition write_file :: "filesystem \<Rightarrow> pystr \<Rightarrow> pystr \<Rightarrow> exn + filesystem" where
  "write_file fs filepath content =
     (if filepath \<in> dirs fs \<or>
         \<not> (list_all (\<lambda>c. c = slash) (dirname filepath) \<or> dirname filepath \<in> dirs fs)
      then Inl (OSError filepath)
      else Inr (fs\<lparr>files := (files fs)(filepath \<mapsto> content)\<rparr>))"

record extractor =
  output_dir :: pystr



text \<open>
  Modelled from the spec: \<^verbatim>\<open>config.py\<close>, which defines \<^verbatim>\<open>SUPPORTED_FORMATS\<close>, is not among
  the sources; the spec gives the supported-format set as json, txt and csv.
\<close>

definition SUPPORTED_FORMATS :: "pystr list" where
  "SUPPORTED_FORMATS = [lit ''json'', lit ''txt'', lit ''csv'']"

text \<open>
  The two serialisers of libraries, \<^verbatim>\<open>json.dump\<close> of the batch and \<^verbatim>\<open>DataFrame.to_csv\<close> of
  the rows, are parameters; the text format is written by the source itself.
\<close>

record 't csv_row =
  row_video_id :: pystr
  row_start_time :: 't
  row_duration :: 't
  row_text :: pystr

record 't serializers =
  json_dump :: "'t batch \<Rightarrow> pystr"
  to_csv :: "'t csv_row list \<Rightarrow> pystr"

fun txt_lines :: "'t batch \<Rightarrow> pystr" where
  "txt_lines [] = []"
| "txt_lines ((video_id, data) # items) =
     (if status data = lit ''success''
      then lit ''Video ID: '' @ video_id @ [newline] @
           lit ''Full Text: '' @ the_full_text data @ [newline] @
           replicate 80 (of_char CHR ''-'') @ [newline, newline] @ txt_lines items
      else txt_lines items)"

fun csv_rows :: "'t batch \<Rightarrow> 't csv_row list" where
  "csv_rows [] = []"
| "csv_rows ((video_id, data) # items) =
     (if status data = lit ''success''
      then map (\<lambda>segment. \<lparr>row_video_id = video_id, row_start_time = seg_start segment,
                  row_duration = seg_duration segment, row_text = seg_text segment\<rparr>)
             (the_segments data) @ csv_rows items
      else csv_rows items)"

definition save_transcripts ::
  "'t serializers \<Rightarrow> extractor \<Rightarrow> filesystem \<Rightarrow> 't batch \<Rightarrow> pystr \<Rightarrow> pystr \<Rightarrow>
   (exn + pystr) \<times> filesystem"
where
  "save_transcripts lib self fs transcripts format filename =
     (if format \<notin> set SUPPORTED_FORMATS then (Inl (ValueError format), fs)
      else
        let filepath = path_join (output_dir self) (filename @ lit ''.'' @ format);
            written =
              (if format = lit ''json'' then write_file fs filepath (json_dump lib transcripts)
               else if format = lit ''txt'' then write_file fs filepath (txt_lines transcripts)
               else if format = lit ''csv''
                 then write_file fs filepath (to_csv lib (csv_rows transcripts))
               else Inr fs)
        in case written of
             Inl e \<Rightarrow> (Inl e, fs)
           | Inr fs' \<Rightarrow> (Inr filepath, fs'))"

section \<open>Training data\<close>

record training_chunk =
  chunk_video_id :: pystr
  chunk_index :: nat
  chunk_text_of :: pystr

text \<open>
  Modelled from the spec: the source of \<^verbatim>\<open>prepare_for_training\<close> ends inside the
  dictionary it appends, after \<^verbatim>\<open>'video_id': video_\<close>. The two loops, the test of the
  status, the call of \<^verbatim>\<open>chunk_text\<close> on \<^verbatim>\<open>full_text\<close> and \<^verbatim>\<open>enumerate\<close> are the source's;
  the fields of the appended chunk (the video identifier, the index \<^verbatim>\<open>i\<close> as chunk index,
  the chunk as text) and the return of \<^verbatim>\<open>training_data\<close> follow the spec.
\<close>

fun append_chunks ::
  "pystr \<Rightarrow> (nat \<times> pystr) list \<Rightarrow> training_chunk list \<Rightarrow> training_chunk list"
where
  "append_chunks video_id [] training_data = training_data"
| "append_chunks video_id ((i, chunk) # rest) training_data =
     append_chunks video_id rest
       (training_data @
        [\<lparr>chunk_video_id = video_id, chunk_index = i, chunk_text_of = chunk\<rparr>])"

fun training_loop ::
  "preparer \<Rightarrow> 't batch \<Rightarrow> training_chunk list \<Rightarrow> training_chunk list"
where
  "training_loop self [] training_data = training_data"
| "training_loop self ((video_id, data) # items) training_data =
     (if status data = lit ''success''
      then training_loop self items
             (append_chunks video_id (List.enumerate 0 (chunk_text self (the_full_text data)))
                training_data)
      else training_loop self items training_data)"

definition prepare_for_training :: "preparer \<Rightarrow> 't batch \<Rightarrow> training_chunk list" where
  "prepare_for_training self transcripts = training_loop self transcripts []"

section \<open>Auxiliary definitions\<close>

text \<open>
  Predicates and invariants used in the proofs, the keys and entries of the batch loop
  written as functions of a URL, and small concrete inputs on which the theorems are
  instantiated.
\<close>

definition word_ok :: "pystr \<Rightarrow> bool" where
  "word_ok w = (w \<noteq> [] \<and> list_all (\<lambda>c. \<not> isspace c) w)"

definition chunk_ok :: "pystr \<Rightarrow> bool" where
  "chunk_ok ch = (ch \<noteq> [] \<and> \<not> isspace (hd ch) \<and> \<not> isspace (last ch))"

definition longest_word :: "pystr \<Rightarrow> nat" where
  "longest_word text = fold (\<lambda>w m. max (length w) m) (str_split text) 0"

definition cur_inv :: "preparer \<Rightarrow> int \<Rightarrow> pystr list \<Rightarrow> int \<Rightarrow> bool" where
  "cur_inv self B cur len =
     (int (length (str_join space cur)) \<le> len \<and>
      (cur = [] \<or> len \<le> max_chunk_length self \<or> (\<exists>w. cur = [w] \<and> int (length w) \<le> B)))"

definition alone :: "pystr \<Rightarrow> pystr list \<Rightarrow> pystr list \<Rightarrow> int \<Rightarrow> bool" where
  "alone w chunks cur len = (w \<in> set chunks \<or> (cur = [w] \<and> len = int (length w)))"

definition make_segment :: "('t::zero) cue \<Rightarrow> 't segment" where
  "make_segment entry =
     \<lparr>seg_start = cue_start entry,
      seg_duration = (case cue_duration entry of None \<Rightarrow> 0 | Some d \<Rightarrow> d),
      seg_text = clean_transcript_text (cue_text entry)\<rparr>"

definition demo_service :: "(unit, int) service" where
  "demo_service world video_id =
     (if video_id = lit ''ABC123''
      then (Inr [\<lparr>cue_text = lit ''hello [Music] there'', cue_start = 0, cue_duration = Some 2\<rparr>,
                 \<lparr>cue_text = lit ''(applause)'', cue_start = 2, cue_duration = None\<rparr>,
                 \<lparr>cue_text = lit '' world '', cue_start = 5, cue_duration = Some 1\<rparr>], world)
      else (Inl (lit ''no captions''), world))"

definition batch_key :: "pystr \<Rightarrow> pystr" where
  "batch_key url = (case extract_video_id url of None \<Rightarrow> url | Some video_id \<Rightarrow> video_id)"

definition batch_entry :: "('s, 't::zero) service \<Rightarrow> 's \<Rightarrow> pystr \<Rightarrow> 't video_record" where
  "batch_entry get_transcript world url =
     (case extract_video_id url of
        None \<Rightarrow> invalid_url
      | Some video_id \<Rightarrow> fst (extract_single_transcript get_transcript world video_id))"

definition next_world :: "('s, 't::zero) service \<Rightarrow> 's \<Rightarrow> pystr \<Rightarrow> 's" where
  "next_world get_transcript world url =
     (case extract_video_id url of
        None \<Rightarrow> world
      | Some video_id \<Rightarrow> snd (extract_single_transcript get_transcript world video_id))"

definition demo_urls :: "pystr list" where
  "demo_urls = [lit ''https://youtu.be/ABC123'', lit ''not a url'']"

definition record_chunks :: "preparer \<Rightarrow> pystr \<times> 't video_record \<Rightarrow> training_chunk list" where
  "record_chunks self item =
     (case item of (video_id, data) \<Rightarrow>
        (case data of
           Success _ full_text _ _ \<Rightarrow>
             map (\<lambda>i. \<lparr>chunk_video_id = video_id, chunk_index = i,
                        chunk_text_of = chunk_text self full_text ! i\<rparr>)
               [0..<length (chunk_text self full_text)]
         | Failed _ _ \<Rightarrow> []))"

definition demo_batch :: "int batch" where
  "demo_batch =
     [(lit ''v1'', Success (lit ''v1'') (lit ''ab cd e'') [] 0),
      (lit ''bad'', Failed None (lit ''Invalid YouTube URL'')),
      (lit ''v2'', Success (lit ''v2'') (lit ''xy'') [] 0)]"

definition demo_lib :: "int serializers" where
  "demo_lib = \<lparr>json_dump = (\<lambda>transcripts. lit ''{}''), to_csv = (\<lambda>rows. [])\<rparr>"

definition demo_extractor :: extractor where
  "demo_extractor = \<lparr>output_dir = lit ''output''\<rparr>"


definition fs_output :: filesystem where
  "fs_output = \<lparr>dirs = {lit ''output''}, files = Map.empty\<rparr>"


text \<open>The search without the optional parts: the first place where the literal and a
  non-empty group follow.\<close>

fun plain_search :: "pystr \<Rightarrow> pystr \<Rightarrow> pystr option" where
  "plain_search l [] = match_literal l []"
| "plain_search l (c # cs) =
     (case match_literal l (c # cs) of Some g \<Rightarrow> Some g | None \<Rightarrow> plain_search l cs)"

section \<open>Words, joins and chunks\<close>

lemma isspace_space [simp]: "isspace 32"
  by (simp add: isspace_def)

lemma space_eq: "space = [32]"
  by (simp add: space_def lit_def)

lemma split_from_word_ok:
  "list_all (\<lambda>c. \<not> isspace c) w \<Longrightarrow> list_all word_ok (split_from w s)"
  by (induction s arbitrary: w) (auto simp: word_ok_def)

lemma str_split_word_ok: "list_all word_ok (str_split s)"
  by (simp add: str_split_def split_from_word_ok)

lemma split_from_all_space:
  "list_all isspace s \<Longrightarrow> split_from [] s = []"
  by (induction s) auto

lemma str_join_Cons:
  "str_join sep (w # ws) = (if ws = [] then w else w @ sep @ str_join sep ws)"
  by (cases ws) auto

lemma str_join_snoc:
  "str_join sep (ws @ [w]) = (if ws = [] then w else str_join sep ws @ sep @ w)"
  by (induction sep ws rule: str_join.induct) auto

lemma str_join_ne: "ws \<noteq> [] \<Longrightarrow> list_all word_ok ws \<Longrightarrow> str_join sep ws \<noteq> []"
  by (cases ws) (auto simp: str_join_Cons word_ok_def)

lemma hd_str_join:
  "ws \<noteq> [] \<Longrightarrow> list_all word_ok ws \<Longrightarrow> hd (str_join sep ws) = hd (hd ws)"
  by (cases ws) (auto simp: str_join_Cons word_ok_def)

lemma last_str_join:
  "ws \<noteq> [] \<Longrightarrow> list_all word_ok ws \<Longrightarrow> last (str_join sep ws) = last (last ws)"
proof (induction ws rule: rev_induct)
  case Nil
  then show ?case by simp
next
  case (snoc w ws)
  then show ?case by (auto simp: str_join_snoc word_ok_def)
qed

lemma word_ok_hd_last: "word_ok w \<Longrightarrow> \<not> isspace (hd w) \<and> \<not> isspace (last w)"
  by (cases w) (auto simp: word_ok_def list_all_iff)

lemma chunk_ok_str_join:
  assumes "ws \<noteq> []" "list_all word_ok ws"
  shows "chunk_ok (str_join sep ws)"
proof -
  have "word_ok (hd ws)" "word_ok (last ws)"
    using assms by (auto simp: list_all_iff)
  then show ?thesis
    using assms by (simp add: chunk_ok_def str_join_ne hd_str_join last_str_join word_ok_hd_last)
qed

lemma chunk_loop_chunk_ok:
  assumes "chunk_loop self words chunks cur len = (chunks', cur', len')"
    and "list_all word_ok words" "list_all word_ok cur" "list_all chunk_ok chunks"
  shows "list_all chunk_ok chunks' \<and> list_all word_ok cur'"
  using assms
proof (induction words arbitrary: chunks cur len)
  case Nil
  then show ?case by simp
next
  case (Cons word words)
  show ?case
  proof (cases "len + int (length word) + 1 \<le> max_chunk_length self")
    case True
    with Cons.prems have "chunk_loop self words chunks (cur @ [word])
        (len + (int (length word) + 1)) = (chunks', cur', len')"
      by simp
    from Cons.IH [OF this] show ?thesis
      using Cons.prems(2,3,4) by simp
  next
    case False
    let ?chunks = "if cur \<noteq> [] then chunks @ [str_join space cur] else chunks"
    from False Cons.prems have "chunk_loop self words ?chunks [word] (int (length word))
        = (chunks', cur', len')"
      by simp
    moreover have "list_all chunk_ok ?chunks"
      using Cons.prems(3,4) chunk_ok_str_join [of cur] by auto
    ultimately show ?thesis
      using Cons.prems(2) Cons.IH [of ?chunks "[word]" "int (length word)"] by simp
  qed
qed

lemma chunk_text_chunk_ok: "list_all chunk_ok (chunk_text self text)"
proof -
  obtain chunks cur len where
    run: "chunk_loop self (str_split text) [] [] 0 = (chunks, cur, len)"
    by (metis prod_cases3)
  from chunk_loop_chunk_ok [OF run] have "list_all chunk_ok chunks" "list_all word_ok cur"
    by (simp_all add: str_split_word_ok)
  then show ?thesis
    using chunk_ok_str_join [of cur] by (auto simp: chunk_text_def run)
qed

lemma str_strip_chunk_ok: "chunk_ok ch \<Longrightarrow> str_strip ch = ch"
proof -
  assume ok: "chunk_ok ch"
  then have "dropWhile isspace ch = ch"
    by (cases ch) (auto simp: chunk_ok_def)
  moreover from ok have "dropWhile isspace (rev ch) = rev ch"
    by (cases ch rule: rev_cases) (auto simp: chunk_ok_def)
  ultimately show ?thesis
    by (simp add: str_strip_def)
qed

lemma split_from_append_word:
  "list_all (\<lambda>c. \<not> isspace c) u \<Longrightarrow> split_from w (u @ s) = split_from (w @ u) s"
  by (induction u arbitrary: w) auto

lemma str_split_word_Nil: "word_ok w \<Longrightarrow> str_split w = [w]"
  using split_from_append_word [of w "[]" "[]"] by (simp add: str_split_def word_ok_def)

lemma str_split_word_space:
  "word_ok w \<Longrightarrow> str_split (w @ space @ s) = w # str_split s"
  using split_from_append_word [of w "[]" "32 # s"]
  by (simp add: str_split_def word_ok_def space_eq)

lemma str_split_str_join:
  "list_all word_ok ws \<Longrightarrow> str_split (str_join space ws) = ws"
proof (induction space ws rule: str_join.induct)
  case 1
  then show ?case by (simp add: str_split_def)
next
  case (2 w)
  then show ?case by (simp add: str_split_word_Nil)
next
  case (3 w v ws)
  then show ?case by (simp add: str_split_word_space)
qed

lemma str_join_append:
  "a \<noteq> [] \<Longrightarrow> b \<noteq> [] \<Longrightarrow> str_join sep (a @ b) = str_join sep a @ sep @ str_join sep b"
proof (induction sep a rule: str_join.induct)
  case (1 sep)
  then show ?case by simp
next
  case (2 sep w)
  then show ?case by (cases b) auto
next
  case (3 sep w v ws)
  then show ?case by simp
qed

lemma str_join_concat:
  "[] \<notin> set gs \<Longrightarrow> str_join sep (map (str_join sep) gs) = str_join sep (concat gs)"
proof (induction gs)
  case Nil
  then show ?case by simp
next
  case (Cons g gs)
  show ?case
  proof (cases "gs = []")
    case True
    then show ?thesis by simp
  next
    case False
    with Cons.prems have "concat gs \<noteq> []" "g \<noteq> []"
      by (cases gs; auto)+
    then show ?thesis
      using Cons False by (simp add: str_join_Cons str_join_append)
  qed
qed

lemma chunk_loop_groups:
  assumes "chunk_loop self words (map (str_join space) gs) cur len = (chunks', cur', len')"
    and "[] \<notin> set gs"
  shows "\<exists>gs'. chunks' = map (str_join space) gs' \<and> [] \<notin> set gs' \<and>
           concat gs' @ cur' = concat gs @ cur @ words"
  using assms
proof (induction words arbitrary: gs cur len)
  case Nil
  then show ?case by auto
next
  case (Cons word words)
  show ?case
  proof (cases "len + int (length word) + 1 \<le> max_chunk_length self")
    case True
    with Cons.prems have "chunk_loop self words (map (str_join space) gs) (cur @ [word])
        (len + (int (length word) + 1)) = (chunks', cur', len')"
      by simp
    from Cons.IH [OF this Cons.prems(2)] show ?thesis by simp
  next
    case False
    let ?gs = "if cur \<noteq> [] then gs @ [cur] else gs"
    from False Cons.prems have "chunk_loop self words (map (str_join space) ?gs) [word]
        (int (length word)) = (chunks', cur', len')"
      by (cases "cur = []") simp_all
    moreover have "[] \<notin> set ?gs"
      using Cons.prems(2) by simp
    ultimately have "\<exists>gs'. chunks' = map (str_join space) gs' \<and> [] \<notin> set gs' \<and>
           concat gs' @ cur' = concat ?gs @ [word] @ words"
      by (rule Cons.IH)
    then show ?thesis by auto
  qed
qed

lemma chunk_text_groups:
  "\<exists>gs. chunk_text self text = map (str_join space) gs \<and> [] \<notin> set gs \<and>
        concat gs = str_split text"
proof -
  obtain chunks cur len where
    run: "chunk_loop self (str_split text) [] [] 0 = (chunks, cur, len)"
    by (metis prod_cases3)
  from chunk_loop_groups [of self "str_split text" "[]" "[]" 0 chunks cur len] run
  obtain gs where gs: "chunks = map (str_join space) gs" "[] \<notin> set gs"
      "concat gs @ cur = str_split text"
    by auto
  show ?thesis
  proof (cases "cur = []")
    case True
    with gs run show ?thesis by (auto simp: chunk_text_def)
  next
    case False
    with gs run have "chunk_text self text = map (str_join space) (gs @ [cur])"
      "[] \<notin> set (gs @ [cur])" "concat (gs @ [cur]) = str_split text"
      by (auto simp: chunk_text_def)
    then show ?thesis by blast
  qed
qed

lemma map_str_split_groups:
  "list_all word_ok (concat gs) \<Longrightarrow> map str_split (map (str_join space) gs) = gs"
  by (induction gs) (auto simp: str_split_str_join)

lemma fold_max_ge: "m \<le> fold (\<lambda>w m. max (length w) m) ws (m::nat)"
proof (induction ws arbitrary: m)
  case Nil
  then show ?case by simp
next
  case (Cons w ws)
  have "m \<le> max (length w) m" by simp
  also have "\<dots> \<le> fold (\<lambda>w m. max (length w) m) ws (max (length w) m)"
    by (rule Cons.IH)
  finally show ?case by simp
qed

lemma fold_max_mem:
  "w \<in> set ws \<Longrightarrow> length w \<le> fold (\<lambda>w m. max (length w) m) ws (m::nat)"
proof (induction ws arbitrary: m)
  case Nil
  then show ?case by simp
next
  case (Cons v ws)
  show ?case
  proof (cases "w = v")
    case True
    have "length w \<le> max (length v) m" using True by simp
    also have "\<dots> \<le> fold (\<lambda>w m. max (length w) m) ws (max (length v) m)"
      by (rule fold_max_ge)
    finally show ?thesis by simp
  next
    case False
    with Cons.prems have "w \<in> set ws" by simp
    from Cons.IH [OF this] show ?thesis by simp
  qed
qed

lemma longest_word_ge: "w \<in> set (str_split text) \<Longrightarrow> length w \<le> longest_word text"
  by (simp add: longest_word_def fold_max_mem)

lemma length_str_join_snoc:
  "length (str_join space (ws @ [w])) \<le> length (str_join space ws) + 1 + length w"
  by (simp add: str_join_snoc space_eq)

lemma cur_inv_flush:
  "cur_inv self B cur len \<Longrightarrow> cur \<noteq> [] \<Longrightarrow> max_chunk_length self \<le> B \<Longrightarrow>
   int (length (str_join space cur)) \<le> B"
  by (auto simp: cur_inv_def)

lemma chunk_loop_bound:
  assumes "chunk_loop self words chunks cur len = (chunks', cur', len')"
    and "list_all (\<lambda>w. int (length w) \<le> B) words"
    and "max_chunk_length self \<le> B"
    and "list_all (\<lambda>c. int (length c) \<le> B) chunks"
    and "cur_inv self B cur len"
  shows "list_all (\<lambda>c. int (length c) \<le> B) chunks' \<and> cur_inv self B cur' len'"
  using assms
proof (induction words arbitrary: chunks cur len)
  case Nil
  then show ?case by simp
next
  case (Cons word words)
  show ?case
  proof (cases "len + int (length word) + 1 \<le> max_chunk_length self")
    case True
    with Cons.prems(1) have run: "chunk_loop self words chunks (cur @ [word])
        (len + (int (length word) + 1)) = (chunks', cur', len')"
      by simp
    have "int (length (str_join space (cur @ [word]))) \<le> len + (int (length word) + 1)"
      using length_str_join_snoc [of cur word] Cons.prems(5) by (simp add: cur_inv_def)
    with True have "cur_inv self B (cur @ [word]) (len + (int (length word) + 1))"
      by (simp add: cur_inv_def)
    with Cons.IH [OF run] Cons.prems(2,3,4) show ?thesis by simp
  next
    case False
    let ?chunks = "if cur \<noteq> [] then chunks @ [str_join space cur] else chunks"
    from False Cons.prems(1) have run: "chunk_loop self words ?chunks [word]
        (int (length word)) = (chunks', cur', len')"
      by (cases "cur = []") simp_all
    have "list_all (\<lambda>c. int (length c) \<le> B) ?chunks"
      using Cons.prems(3,4,5) cur_inv_flush [of self B cur len] by simp
    moreover have "cur_inv self B [word] (int (length word))"
      using Cons.prems(2) by (simp add: cur_inv_def)
    ultimately show ?thesis
      using Cons.IH [OF run] Cons.prems(2,3) by simp
  qed
qed

lemma chunk_text_bound:
  assumes "list_all (\<lambda>w. int (length w) \<le> B) (str_split text)" "max_chunk_length self \<le> B"
  shows "list_all (\<lambda>c. int (length c) \<le> B) (chunk_text self text)"
proof -
  obtain chunks cur len where
    run: "chunk_loop self (str_split text) [] [] 0 = (chunks, cur, len)"
    by (metis prod_cases3)
  have "cur_inv self B [] 0" by (simp add: cur_inv_def)
  with chunk_loop_bound [OF run assms] have
    "list_all (\<lambda>c. int (length c) \<le> B) chunks" "cur_inv self B cur len"
    by simp_all
  then show ?thesis
    using cur_inv_flush [of self B cur len] assms(2) by (simp add: chunk_text_def run)
qed

lemma chunk_loop_alone_kept:
  assumes "chunk_loop self words chunks cur len = (chunks', cur', len')"
    and "max_chunk_length self < int (length w)" and "0 \<le> len"
    and "alone w chunks cur len"
  shows "alone w chunks' cur' len'"
  using assms
proof (induction words arbitrary: chunks cur len)
  case Nil
  then show ?case by simp
next
  case (Cons word words)
  show ?case
  proof (cases "len + int (length word) + 1 \<le> max_chunk_length self")
    case True
    with Cons.prems(1) have run: "chunk_loop self words chunks (cur @ [word])
        (len + (int (length word) + 1)) = (chunks', cur', len')"
      by simp
    from True Cons.prems(2,3,4) have "alone w chunks (cur @ [word]) (len + (int (length word) + 1))"
      by (auto simp: alone_def)
    with Cons.IH [OF run Cons.prems(2)] Cons.prems(3) show ?thesis by simp
  next
    case False
    let ?chunks = "if cur \<noteq> [] then chunks @ [str_join space cur] else chunks"
    from False Cons.prems(1) have run: "chunk_loop self words ?chunks [word]
        (int (length word)) = (chunks', cur', len')"
      by (cases "cur = []") simp_all
    from Cons.prems(4) have "alone w ?chunks [word] (int (length word))"
      by (auto simp: alone_def)
    with Cons.IH [OF run Cons.prems(2)] show ?thesis by simp
  qed
qed

lemma chunk_loop_alone:
  assumes "chunk_loop self words chunks cur len = (chunks', cur', len')"
    and "max_chunk_length self < int (length w)" and "0 \<le> len"
    and "w \<in> set words"
  shows "alone w chunks' cur' len'"
  using assms
proof (induction words arbitrary: chunks cur len)
  case Nil
  then show ?case by simp
next
  case (Cons word words)
  show ?case
  proof (cases "len + int (length word) + 1 \<le> max_chunk_length self")
    case True
    with Cons.prems(1) have run: "chunk_loop self words chunks (cur @ [word])
        (len + (int (length word) + 1)) = (chunks', cur', len')"
      by simp
    from True Cons.prems(2,3) have "word \<noteq> w" by auto
    with Cons.prems(4) have "w \<in> set words" by simp
    with Cons.IH [OF run Cons.prems(2)] Cons.prems(3) show ?thesis by simp
  next
    case False
    let ?chunks = "if cur \<noteq> [] then chunks @ [str_join space cur] else chunks"
    from False Cons.prems(1) have run: "chunk_loop self words ?chunks [word]
        (int (length word)) = (chunks', cur', len')"
      by (cases "cur = []") simp_all
    show ?thesis
    proof (cases "word = w")
      case True
      then have "alone w ?chunks [word] (int (length word))"
        by (simp add: alone_def)
      with chunk_loop_alone_kept [OF run Cons.prems(2)] show ?thesis by simp
    next
      case False
      with Cons.prems(4) have "w \<in> set words" by simp
      with Cons.IH [OF run Cons.prems(2)] show ?thesis by simp
    qed
  qed
qed

lemma chunk_text_alone:
  assumes "w \<in> set (str_split text)" "max_chunk_length self < int (length w)"
  shows "w \<in> set (chunk_text self text)"
proof -
  obtain chunks cur len where
    run: "chunk_loop self (str_split text) [] [] 0 = (chunks, cur, len)"
    by (metis prod_cases3)
  from chunk_loop_alone [OF run assms(2) _ assms(1)] have "alone w chunks cur len"
    by simp
  then show ?thesis
    by (auto simp: alone_def chunk_text_def run)
qed

lemma split_from_length:
  "w \<in> set (split_from acc s) \<Longrightarrow> length w \<le> length acc + length s"
proof (induction s arbitrary: acc)
  case Nil
  then show ?case by (simp split: if_splits)
next
  case (Cons c cs)
  show ?case
  proof (cases "isspace c")
    case True
    with Cons.prems have "w = acc \<or> w \<in> set (split_from [] cs)"
      by (auto split: if_splits)
    then show ?thesis
      using Cons.IH [of "[]"] by auto
  next
    case False
    with Cons.prems have "w \<in> set (split_from (acc @ [c]) cs)" by simp
    from Cons.IH [OF this] show ?thesis by simp
  qed
qed

lemma str_split_length: "w \<in> set (str_split s) \<Longrightarrow> length w \<le> length s"
  using split_from_length [of w "[]" s] by (simp add: str_split_def)

lemma chunk_loop_long_chunk:
  assumes "chunk_loop self words chunks cur len = (chunks', cur', len')"
    and "set words \<subseteq> W"
    and "list_all (\<lambda>c. max_chunk_length self < int (length c) \<longrightarrow> c \<in> W) chunks"
    and "int (length (str_join space cur)) \<le> len"
    and "cur = [] \<or> len \<le> max_chunk_length self \<or> (\<exists>w \<in> W. cur = [w])"
  shows "list_all (\<lambda>c. max_chunk_length self < int (length c) \<longrightarrow> c \<in> W) chunks' \<and>
         int (length (str_join space cur')) \<le> len' \<and>
         (cur' = [] \<or> len' \<le> max_chunk_length self \<or> (\<exists>w \<in> W. cur' = [w]))"
  using assms
proof (induction words arbitrary: chunks cur len)
  case Nil
  then show ?case by simp
next
  case (Cons word words)
  show ?case
  proof (cases "len + int (length word) + 1 \<le> max_chunk_length self")
    case True
    with Cons.prems(1) have run: "chunk_loop self words chunks (cur @ [word])
        (len + (int (length word) + 1)) = (chunks', cur', len')"
      by simp
    have "int (length (str_join space (cur @ [word]))) \<le> len + (int (length word) + 1)"
      using length_str_join_snoc [of cur word] Cons.prems(4) by simp
    moreover from True have "len + (int (length word) + 1) \<le> max_chunk_length self"
      by simp
    ultimately show ?thesis
      using Cons.IH [OF run] Cons.prems(2,3) by simp
  next
    case False
    let ?chunks = "if cur \<noteq> [] then chunks @ [str_join space cur] else chunks"
    from False Cons.prems(1) have run: "chunk_loop self words ?chunks [word]
        (int (length word)) = (chunks', cur', len')"
      by (cases "cur = []") simp_all
    have "list_all (\<lambda>c. max_chunk_length self < int (length c) \<longrightarrow> c \<in> W) ?chunks"
      using Cons.prems(3,4,5) by auto
    moreover have "\<exists>w \<in> W. [word] = [w]"
      using Cons.prems(2) by simp
    ultimately show ?thesis
      using Cons.IH [OF run] Cons.prems(2) by simp
  qed
qed

lemma chunk_text_long_chunk:
  assumes "c \<in> set (chunk_text self text)" "max_chunk_length self < int (length c)"
  shows "c \<in> set (str_split text)"
proof -
  obtain chunks cur len where
    run: "chunk_loop self (str_split text) [] [] 0 = (chunks, cur, len)"
    by (metis prod_cases3)
  from chunk_loop_long_chunk [OF run, of "set (str_split text)"] have
    inv: "list_all (\<lambda>c. max_chunk_length self < int (length c) \<longrightarrow> c \<in> set (str_split text)) chunks"
      "int (length (str_join space cur)) \<le> len"
      "cur = [] \<or> len \<le> max_chunk_length self \<or> (\<exists>w \<in> set (str_split text). cur = [w])"
    by simp_all
  from assms(1) have "c \<in> set chunks \<or> (cur \<noteq> [] \<and> c = str_join space cur)"
    by (auto simp: chunk_text_def run split: if_splits)
  then show ?thesis
  proof
    assume "c \<in> set chunks"
    with inv(1) assms(2) show ?thesis by (auto simp: list_all_iff)
  next
    assume last: "cur \<noteq> [] \<and> c = str_join space cur"
    with inv(2) assms(2) have "\<not> len \<le> max_chunk_length self" by simp
    with inv(3) last obtain w where "w \<in> set (str_split text)" "cur = [w]" by blast
    with last show ?thesis by simp
  qed
qed

lemma chunk_text_long_word_alone:
  assumes "c \<in> set (chunk_text self text)" "w \<in> set (str_split c)"
    "max_chunk_length self < int (length w)"
  shows "c = w"
proof -
  from assms(2) have "length w \<le> length c" by (rule str_split_length)
  with assms(3) have "max_chunk_length self < int (length c)" by simp
  with assms(1) have "c \<in> set (str_split text)" by (rule chunk_text_long_chunk)
  then have "word_ok c"
    using str_split_word_ok [of "text"] by (simp add: list_all_iff)
  then have "str_split c = [c]" by (rule str_split_word_Nil)
  with assms(2) show ?thesis by simp
qed

lemma last_concat_groups:
  "gs \<noteq> [] \<Longrightarrow> [] \<notin> set gs \<Longrightarrow> last (concat gs) = last (last gs)"
  by (induction gs rule: rev_induct) auto

lemma chunk_text_last:
  assumes "str_split text \<noteq> []"
  shows "chunk_text self text \<noteq> [] \<and>
         last (str_split (last (chunk_text self text))) = last (str_split text)"
proof -
  obtain gs where gs: "chunk_text self text = map (str_join space) gs" "[] \<notin> set gs"
      "concat gs = str_split text"
    using chunk_text_groups by blast
  from assms gs(3) have ne: "gs \<noteq> []" by auto
  have "list_all word_ok (concat gs)"
    by (simp add: gs(3) str_split_word_ok)
  with ne have "list_all word_ok (last gs)"
    by (cases gs rule: rev_cases) auto
  then have "str_split (last (chunk_text self text)) = last gs"
    using ne by (simp add: gs(1) last_map str_split_str_join)
  then show ?thesis
    using ne gs last_concat_groups [of gs] by simp
qed

lemma demo_chunks_long:
  "chunk_text \<lparr>max_chunk_length = 4\<rparr> (lit ''ab abcdefg c d'')
     = [lit ''ab'', lit ''abcdefg'', lit ''c d'']"
  "longest_word (lit ''ab abcdefg c d'') = 7"
  "str_split (lit ''ab abcdefg c d'') = [lit ''ab'', lit ''abcdefg'', lit ''c'', lit ''d'']"
  "chunk_text \<lparr>max_chunk_length = 4\<rparr> (lit ''abcdefghijkl abcdefg x abcdefg'')
     = [lit ''abcdefghijkl'', lit ''abcdefg'', lit ''x'', lit ''abcdefg'']"
  by (simp_all add: chunk_text_def longest_word_def str_split_def space_def lit_def isspace_def)

section \<open>The fetcher and the batch loop\<close>

lemma transcript_loop_eq:
  "transcript_loop es ft segs =
     (ft @ concat (map (\<lambda>e. clean_transcript_text (cue_text e) @ space) es),
      segs @ map make_segment es)"
  by (induction es arbitrary: ft segs) (simp_all add: Let_def make_segment_def)

lemma concat_with_space:
  "concat (map (\<lambda>t. t @ space) ts) = (if ts = [] then [] else str_join space ts @ space)"
  by (induction space ts rule: str_join.induct) simp_all

lemma str_strip_append_space: "str_strip (s @ space) = str_strip s"
proof (cases "\<forall>c \<in> set s. isspace c")
  case True
  then have "dropWhile isspace s = []" "dropWhile isspace (s @ space) = []"
    by (simp_all add: dropWhile_eq_Nil_conv space_eq)
  then show ?thesis by (simp only: str_strip_def)
next
  case False
  then have "dropWhile isspace (s @ space) = dropWhile isspace s @ space"
    by (simp add: dropWhile_append1 dropWhile_append space_eq split: if_splits)
  then show ?thesis by (simp add: str_strip_def space_eq)
qed

lemma str_strip_concat_space:
  "str_strip (concat (map (\<lambda>t. t @ space) ts)) = str_strip (str_join space ts)"
  by (cases "ts = []") (simp_all add: concat_with_space str_strip_append_space)

lemma seg_text_make_segment:
  "map seg_text (map make_segment es) = map (\<lambda>e. clean_transcript_text (cue_text e)) es"
  by (simp add: make_segment_def)

lemma clean_demo_1: "clean_transcript_text (lit ''hello [Music] there'') = lit ''hello there''"
  by (simp add: clean_transcript_text_def lit_def newline_def isspace_def space_def str_strip_def)

lemma clean_demo_2: "clean_transcript_text (lit ''(applause)'') = []"
  by (simp add: clean_transcript_text_def lit_def newline_def isspace_def space_def str_strip_def)

lemma clean_demo_3: "clean_transcript_text (lit '' world '') = lit ''world''"
  by (simp add: clean_transcript_text_def lit_def newline_def isspace_def space_def str_strip_def)

lemma demo_service_run:
  "extract_single_transcript demo_service () (lit ''ABC123'') =
     (Success (lit ''ABC123'') (lit ''hello there  world'')
        [\<lparr>seg_start = 0, seg_duration = 2, seg_text = lit ''hello there''\<rparr>,
         \<lparr>seg_start = 2, seg_duration = 0, seg_text = []\<rparr>,
         \<lparr>seg_start = 5, seg_duration = 1, seg_text = lit ''world''\<rparr>] 3, ())"
  by (simp add: extract_single_transcript_def demo_service_def clean_demo_1 clean_demo_2
      clean_demo_3)
    (simp add: lit_def space_def str_strip_def isspace_def)

subsection \<open>What the parser returns\<close>

lemma match_group_Some: "match_group s = Some g \<Longrightarrow> g \<noteq> [] \<and> list_all id_char g"
  by (auto simp: match_group_def Let_def list_all_iff split: if_splits dest: set_takeWhileD)

lemma match_literal_Some: "match_literal l s = Some g \<Longrightarrow> g \<noteq> [] \<and> list_all id_char g"
  by (auto simp: match_literal_def split: option.splits dest: match_group_Some)

lemma match_www_Some: "match_www l s = Some g \<Longrightarrow> g \<noteq> [] \<and> list_all id_char g"
  by (auto simp: match_www_def split: option.splits dest: match_literal_Some)

lemma match_scheme_Some: "match_scheme l s = Some g \<Longrightarrow> g \<noteq> [] \<and> list_all id_char g"
  unfolding match_scheme_def
  by (auto split: option.splits dest: match_www_Some)

lemma match_here_Some: "match_here l s = Some g \<Longrightarrow> g \<noteq> [] \<and> list_all id_char g"
  by (auto simp: match_here_def split: option.splits dest: match_scheme_Some match_www_Some)

lemma re_search_Some: "re_search l s = Some g \<Longrightarrow> g \<noteq> [] \<and> list_all id_char g"
  by (induction s) (auto split: option.splits dest: match_here_Some)

lemma first_match_Some: "first_match ps url = Some g \<Longrightarrow> g \<noteq> [] \<and> list_all id_char g"
  by (induction ps) (auto split: option.splits dest: re_search_Some)

lemma extract_video_id_Some:
  "extract_video_id url = Some g \<Longrightarrow> g \<noteq> [] \<and> list_all id_char g"
  by (simp add: extract_video_id_def first_match_Some)

subsection \<open>The batch loop\<close>

lemma extract_loop_Cons:
  "extract_loop svc (url # urls) results world =
     extract_loop svc urls (AList.update (batch_key url) (batch_entry svc world url) results)
       (next_world svc world url)"
  by (auto simp: batch_key_def batch_entry_def next_world_def
      split: option.splits prod.splits dest: extract_video_id_Some)

lemma extract_loop_append:
  "extract_loop svc (xs @ ys) results world =
     (case extract_loop svc xs results world of (r, w) \<Rightarrow> extract_loop svc ys r w)"
proof (induction xs arbitrary: results world)
  case Nil
  then show ?case by simp
next
  case (Cons x xs)
  show ?case
    by (simp only: append_Cons extract_loop_Cons Cons.IH)
qed

lemma extract_transcripts_snoc:
  "extract_transcripts svc world (urls @ [u]) =
     (case extract_transcripts svc world urls of
        (r, w) \<Rightarrow> (AList.update (batch_key u) (batch_entry svc w u) r, next_world svc w u))"
  unfolding extract_transcripts_def extract_loop_append
  by (simp only: extract_loop_Cons extract_loop.simps split: prod.splits) simp

lemma map_fst_update:
  "map fst (AList.update k v al) = (if k \<in> fst ` set al then map fst al else map fst al @ [k])"
  by (induction al) auto

lemma extract_transcripts_keys:
  "map fst (fst (extract_transcripts svc world urls)) = rev (remdups (rev (map batch_key urls)))"
proof (induction urls rule: rev_induct)
  case Nil
  then show ?case by (simp add: extract_transcripts_def)
next
  case (snoc u urls)
  obtain r w where rw: "extract_transcripts svc world urls = (r, w)"
    by (cases "extract_transcripts svc world urls")
  with snoc have keys: "map fst r = rev (remdups (rev (map batch_key urls)))"
    by simp
  then have "fst ` set r = batch_key ` set urls"
    by (metis list.set_map set_remdups set_rev)
  then show ?case
    using keys by (simp add: extract_transcripts_snoc rw map_fst_update)
qed

lemma extract_transcripts_lookup:
  assumes "i < length urls"
    and "\<forall>j. i < j \<and> j < length urls \<longrightarrow> batch_key (urls ! j) \<noteq> batch_key (urls ! i)"
  shows "map_of (fst (extract_transcripts svc world urls)) (batch_key (urls ! i)) =
           Some (batch_entry svc (snd (extract_transcripts svc world (take i urls))) (urls ! i))"
  using assms
proof (induction urls rule: rev_induct)
  case Nil
  then show ?case by simp
next
  case (snoc u urls)
  obtain r w where rw: "extract_transcripts svc world urls = (r, w)"
    by (cases "extract_transcripts svc world urls")
  show ?case
  proof (cases "i = length urls")
    case True
    then show ?thesis
      by (simp add: extract_transcripts_snoc rw update_conv')
  next
    case False
    with snoc.prems(1) have i: "i < length urls" by simp
    have "batch_key ((urls @ [u]) ! length urls) \<noteq> batch_key ((urls @ [u]) ! i)"
      using snoc.prems(2) [rule_format, of "length urls"] i by simp
    then have ne: "batch_key u \<noteq> batch_key (urls ! i)"
      using i by (simp add: nth_append)
    have "\<forall>j. i < j \<and> j < length urls \<longrightarrow> batch_key (urls ! j) \<noteq> batch_key (urls ! i)"
    proof (intro allI impI)
      fix j assume j: "i < j \<and> j < length urls"
      then have "batch_key ((urls @ [u]) ! j) \<noteq> batch_key ((urls @ [u]) ! i)"
        using snoc.prems(2) [rule_format, of j] by simp
      then show "batch_key (urls ! j) \<noteq> batch_key (urls ! i)"
        using j i by (simp add: nth_append)
    qed
    from snoc.IH [OF i this] have "map_of r (batch_key (urls ! i)) =
        Some (batch_entry svc (snd (extract_transcripts svc world (take i urls))) (urls ! i))"
      by (simp add: rw)
    then show ?thesis
      using ne i by (simp add: extract_transcripts_snoc rw update_conv' nth_append)
  qed
qed

lemma id_demo_ABC123: "extract_video_id (lit ''https://youtu.be/ABC123'') = Some (lit ''ABC123'')"
  by code_simp

lemma id_demo_XYZ: "extract_video_id (lit ''https://youtu.be/XYZ'') = Some (lit ''XYZ'')"
  by code_simp

lemma id_demo_abc: "extract_video_id (lit ''https://youtu.be/abc'') = Some (lit ''abc'')"
  by code_simp

lemma id_demo_not_a_url: "extract_video_id (lit ''not a url'') = None"
  by code_simp

lemma id_demo_raw_abc: "extract_video_id (lit ''abc'') = None"
  by code_simp

lemma demo_service_fails:
  "video_id \<noteq> lit ''ABC123'' \<Longrightarrow>
   extract_single_transcript demo_service () video_id = (Failed (Some video_id) (lit ''no captions''), ())"
  by (simp add: extract_single_transcript_def demo_service_def)

lemma lit_demo_distinct:
  "lit ''XYZ'' \<noteq> lit ''ABC123''" "lit ''abc'' \<noteq> lit ''ABC123''"
  "lit ''not a url'' \<noteq> lit ''ABC123''" "lit ''ABC123'' \<noteq> lit ''not a url''"
  "lit ''ABC123'' \<noteq> lit ''XYZ''" "lit ''abc'' \<noteq> []"
  by (simp_all add: lit_def)

lemma status_Failed: "status (Failed v e) = lit ''failed''"
  by (simp add: status_def)

lemma demo_urls_batch:
  "extract_transcripts demo_service () demo_urls =
     ([(lit ''ABC123'', fst (extract_single_transcript demo_service () (lit ''ABC123''))),
       (lit ''not a url'', Failed None (lit ''Invalid YouTube URL''))], ())"
  by (simp add: extract_transcripts_def demo_urls_def id_demo_ABC123 id_demo_not_a_url
      demo_service_run invalid_url_def lit_demo_distinct)
    (simp add: lit_def)

section \<open>Training chunks\<close>

lemma append_chunks_eq:
  "append_chunks video_id ics training_data =
     training_data @
     map (\<lambda>(i, chunk). \<lparr>chunk_video_id = video_id, chunk_index = i, chunk_text_of = chunk\<rparr>) ics"
  by (induction ics arbitrary: training_data) auto

lemma enumerate_nth: "List.enumerate 0 xs = map (\<lambda>i. (i, xs ! i)) [0..<length xs]"
  by (rule nth_equalityI) (simp_all add: nth_enumerate_eq)

lemma status_Success: "status (Success v ft segs n) = lit ''success''"
  by (simp add: status_def)

lemma status_Failed_ne: "status (Failed v e) \<noteq> lit ''success''"
  by (simp add: status_def lit_def)

lemma training_loop_eq:
  "training_loop self items training_data =
     training_data @ concat (map (record_chunks self) items)"
proof (induction items arbitrary: training_data)
  case Nil
  then show ?case by simp
next
  case (Cons item items)
  obtain video_id data where item: "item = (video_id, data)"
    by (cases item)
  show ?case
  proof (cases data)
    case (Success v ft segs n)
    then show ?thesis
      by (simp add: item Cons.IH status_Success append_chunks_eq enumerate_nth record_chunks_def
          comp_def)
  next
    case (Failed v e)
    then show ?thesis
      by (simp add: item Cons.IH status_Failed_ne record_chunks_def)
  qed
qed

lemma record_chunks_video_id:
  "c \<in> set (record_chunks self (video_id, data)) \<Longrightarrow>
   chunk_video_id c = video_id \<and> status data = lit ''success''"
  by (cases data) (auto simp: record_chunks_def status_Success)

lemma training_chunk_source:
  assumes "c \<in> set (prepare_for_training self transcripts)"
  shows "\<exists>data. (chunk_video_id c, data) \<in> set transcripts \<and> status data = lit ''success''"
proof -
  from assms obtain item where item: "item \<in> set transcripts" "c \<in> set (record_chunks self item)"
    by (auto simp: prepare_for_training_def training_loop_eq)
  obtain video_id data where "item = (video_id, data)"
    by (cases item)
  with item record_chunks_video_id [of c self video_id data] show ?thesis
    by auto
qed

lemma demo_chunks:
  "chunk_text \<lparr>max_chunk_length = 5\<rparr> (lit ''ab cd e'') = [lit ''ab'', lit ''cd e'']"
  "chunk_text \<lparr>max_chunk_length = 5\<rparr> (lit ''xy'') = [lit ''xy'']"
  by (simp_all add: chunk_text_def str_split_def space_def lit_def isspace_def)

section \<open>Saving and the output directory\<close>


lemma write_file_not_ValueError: "write_file fs filepath content \<noteq> Inl (ValueError m)"
  by (simp add: write_file_def)


lemma save_not_ValueError:
  "format \<in> set SUPPORTED_FORMATS \<Longrightarrow>
   fst (save_transcripts lib self fs transcripts format filename) \<noteq> Inl (ValueError m)"
  by (auto simp: save_transcripts_def Let_def write_file_def split: sum.splits if_splits)

lemma supported_formats_set:
  "set SUPPORTED_FORMATS = {lit ''json'', lit ''txt'', lit ''csv''}"
  by (simp add: SUPPORTED_FORMATS_def)

lemma demo_paths:
  "path_join (lit ''output'') (lit ''x'' @ lit ''.'' @ lit ''json'') = lit ''output/x.json''"
  "path_join (lit ''output'') (lit ''x'' @ lit ''.'' @ lit ''txt'') = lit ''output/x.txt''"
  "dirname (lit ''output/x.json'') = lit ''output''"
  "dirname (lit ''output/x.txt'') = lit ''output''"
  by (simp_all add: path_join_def dirname_def lit_def slash_def)

lemma demo_formats:
  "lit ''bogus'' \<notin> {lit ''json'', lit ''txt'', lit ''csv''}"
  "lit ''txt'' \<in> {lit ''json'', lit ''txt'', lit ''csv''}"
  "lit ''json'' \<in> {lit ''json'', lit ''txt'', lit ''csv''}"
  "lit ''txt'' \<noteq> lit ''json''" "lit ''bogus'' \<noteq> lit ''json''"
  "lit ''bogus'' \<noteq> lit ''txt''" "lit ''bogus'' \<noteq> lit ''csv''"
  by (simp_all add: lit_def)

lemma demo_output_path:
  "lit ''output'' \<noteq> lit ''output/x.json''" "lit ''output'' \<noteq> lit ''output/x.txt''"
  "\<not> list_all (\<lambda>c. c = slash) (lit ''output'')"
  "lit ''output/x.json'' \<noteq> lit ''output''" "lit ''output/x.txt'' \<noteq> lit ''output''"
  by (simp_all add: lit_def slash_def)

lemma demo_save_txt:
  "save_transcripts demo_lib demo_extractor fs_output [] (lit ''txt'') (lit ''x'') =
     (Inr (lit ''output/x.txt''),
      \<lparr>dirs = {lit ''output''}, files = [lit ''output/x.txt'' \<mapsto> []]\<rparr>)"
  by (simp add: save_transcripts_def supported_formats_set demo_formats demo_extractor_def
      fs_output_def demo_paths write_file_def demo_output_path Let_def)





section \<open>The search of a pattern\<close>

lemma strip_prefix_Some: "strip_prefix p s = Some r \<longleftrightarrow> s = p @ r"
  by (induction p s rule: strip_prefix.induct) auto

lemma strip_prefix_append: "strip_prefix p (p @ r) = Some r"
  by (simp add: strip_prefix_Some)

lemma takeWhile_stop: "\<not> P x \<Longrightarrow> takeWhile P (xs @ x # ys) = takeWhile P xs"
  by (induction xs) auto

lemma match_literal_extend:
  assumes "match_literal l s = Some g" "\<not> id_char sep"
  shows "match_literal l (s @ sep # rest) = Some g"
proof -
  from assms(1) obtain r where r: "s = l @ r" "match_group r = Some g"
    by (auto simp: match_literal_def strip_prefix_Some split: option.splits)
  have "strip_prefix l (s @ sep # rest) = Some (r @ sep # rest)"
    by (simp add: r(1) strip_prefix_Some)
  moreover have "match_group (r @ sep # rest) = Some g"
    using r(2) assms(2) by (simp add: match_group_def takeWhile_stop)
  ultimately show ?thesis
    by (simp add: match_literal_def)
qed

lemma strip_prefix_extend_length:
  "strip_prefix p s = None \<Longrightarrow> strip_prefix p (s @ t) = Some r \<Longrightarrow> length s < length p"
  by (induction p s rule: strip_prefix.induct) (auto split: if_splits)

lemma match_literal_new:
  assumes "match_literal l s = None" "match_literal l (s @ sep # rest) = Some g" "\<not> id_char sep"
  shows "length s < length l"
proof (cases "strip_prefix l s")
  case None
  from assms(2) obtain r where "strip_prefix l (s @ sep # rest) = Some r"
    by (auto simp: match_literal_def split: option.splits)
  with None show ?thesis by (rule strip_prefix_extend_length)
next
  case (Some r)
  then have s: "s = l @ r" by (simp add: strip_prefix_Some)
  from Some assms(1) have "match_group r = None"
    by (simp add: match_literal_def)
  then have "match_group (r @ sep # rest) = None"
    using assms(3) by (simp add: match_group_def takeWhile_stop)
  moreover have "strip_prefix l (s @ sep # rest) = Some (r @ sep # rest)"
    by (simp add: s strip_prefix_Some)
  ultimately have "match_literal l (s @ sep # rest) = None"
    by (simp add: match_literal_def)
  with assms(2) show ?thesis by simp
qed

lemma match_literal_length: "match_literal l s = Some g \<Longrightarrow> length l < length s"
  by (auto simp: match_literal_def match_group_def Let_def strip_prefix_Some
      split: option.splits if_splits)

lemma plain_search_length: "plain_search l s = Some g \<Longrightarrow> length l < length s"
proof (induction s)
  case Nil
  then show ?case using match_literal_length [of l "[]" g] by simp
next
  case (Cons c cs)
  show ?case
  proof (cases "match_literal l (c # cs)")
    case None
    with Cons show ?thesis by simp
  next
    case (Some g')
    then show ?thesis using match_literal_length [of l "c # cs" g'] by simp
  qed
qed

lemma plain_search_extend:
  assumes "plain_search l s = Some g" "\<not> id_char sep"
  shows "plain_search l (s @ sep # rest) = Some g"
  using assms(1)
proof (induction s)
  case Nil
  then have "match_literal l ([] @ sep # rest) = Some g"
    using assms(2) by (intro match_literal_extend) simp_all
  then show ?case by simp
next
  case (Cons c cs)
  show ?case
  proof (cases "match_literal l (c # cs)")
    case (Some g')
    with Cons.prems have "g' = g" by simp
    with Some have "match_literal l ((c # cs) @ sep # rest) = Some g"
      using assms(2) by (intro match_literal_extend) simp_all
    then show ?thesis by simp
  next
    case None
    with Cons.prems have tail: "plain_search l cs = Some g" by simp
    have "match_literal l ((c # cs) @ sep # rest) = None"
    proof (rule ccontr)
      assume "match_literal l ((c # cs) @ sep # rest) \<noteq> None"
      then obtain g' where "match_literal l ((c # cs) @ sep # rest) = Some g'" by auto
      from match_literal_new [OF None this assms(2)] have "length (c # cs) < length l" .
      moreover from plain_search_length [OF tail] have "length l < length cs" .
      ultimately show False by simp
    qed
    with Cons.IH [OF tail] show ?thesis by simp
  qed
qed

subsection \<open>The optional parts do not change the match\<close>

lemma match_www_cases:
  "match_www l s = Some g \<Longrightarrow>
   match_literal l s = Some g \<or> (\<exists>r. s = lit ''www.'' @ r \<and> match_literal l r = Some g)"
  by (auto simp: match_www_def strip_prefix_Some split: option.splits)

lemma match_scheme_cases:
  "match_scheme l s = Some g \<Longrightarrow>
   \<exists>r. (s = lit ''https://'' @ r \<or> s = lit ''http://'' @ r) \<and> match_www l r = Some g"
  unfolding match_scheme_def
  by (auto simp: strip_prefix_Some lit_def split: option.splits)

lemma match_here_cases:
  assumes "match_here l s = Some g"
  shows "\<exists>pre r. s = pre @ r \<and> set pre \<subseteq> set (lit ''https://www.'') \<and>
           match_literal l r = Some g"
proof -
  have www: "\<exists>pre r. t = pre @ r \<and> set pre \<subseteq> set (lit ''www.'') \<and> match_literal l r = Some g"
    if "match_www l t = Some g" for t
  proof -
    from match_www_cases [OF that] show ?thesis
    proof
      assume "match_literal l t = Some g"
      then have "t = [] @ t \<and> set [] \<subseteq> set (lit ''www.'') \<and> match_literal l t = Some g"
        by simp
      then show ?thesis by blast
    next
      assume "\<exists>r. t = lit ''www.'' @ r \<and> match_literal l r = Some g"
      then show ?thesis by blast
    qed
  qed
  show ?thesis
  proof (cases "match_scheme l s")
    case None
    with assms have "match_www l s = Some g"
      by (simp add: match_here_def)
    from www [OF this] obtain pre r where
      "s = pre @ r" "set pre \<subseteq> set (lit ''www.'')" "match_literal l r = Some g"
      by blast
    moreover have "set (lit ''www.'') \<subseteq> set (lit ''https://www.'')"
      by (simp add: lit_def)
    ultimately show ?thesis by blast
  next
    case (Some g')
    with assms have "g' = g" by (simp add: match_here_def)
    with Some match_scheme_cases [of l s g] obtain t where
      t: "s = lit ''https://'' @ t \<or> s = lit ''http://'' @ t" "match_www l t = Some g"
      by blast
    from www [OF t(2)] obtain pre r where
      pre: "t = pre @ r" "set pre \<subseteq> set (lit ''www.'')" "match_literal l r = Some g"
      by blast
    have sub: "set (lit ''https://'') \<subseteq> set (lit ''https://www.'')"
      "set (lit ''http://'') \<subseteq> set (lit ''https://www.'')"
      "set (lit ''www.'') \<subseteq> set (lit ''https://www.'')"
      by (simp_all add: lit_def)
    from t(1) show ?thesis
    proof
      assume "s = lit ''https://'' @ t"
      then have "s = (lit ''https://'' @ pre) @ r" by (simp add: pre(1))
      moreover have "set (lit ''https://'' @ pre) \<subseteq> set (lit ''https://www.'')"
        using sub pre(2) by auto
      ultimately show ?thesis using pre(3) by blast
    next
      assume "s = lit ''http://'' @ t"
      then have "s = (lit ''http://'' @ pre) @ r" by (simp add: pre(1))
      moreover have "set (lit ''http://'' @ pre) \<subseteq> set (lit ''https://www.'')"
        using sub pre(2) by auto
      ultimately show ?thesis using pre(3) by blast
    qed
  qed
qed

lemma match_here_None: "match_here l s = None \<Longrightarrow> match_literal l s = None"
  by (auto simp: match_here_def match_www_def split: option.splits)

lemma match_literal_first_char:
  "match_literal (y # l) (c # cs) = Some g \<Longrightarrow> c = y"
  by (auto simp: match_literal_def split: option.splits if_splits)

lemma plain_search_skip:
  "y \<notin> set pre \<Longrightarrow> plain_search (y # l) (pre @ r) = plain_search (y # l) r"
proof (induction pre)
  case Nil
  then show ?case by simp
next
  case (Cons c pre)
  then have "match_literal (y # l) (c # pre @ r) = None"
    using match_literal_first_char [of y l c "pre @ r"] by (cases "match_literal (y # l) (c # pre @ r)") auto
  with Cons show ?case by simp
qed

lemma plain_search_here: "match_literal l r = Some g \<Longrightarrow> plain_search l r = Some g"
  by (cases r) simp_all

lemma re_search_plain:
  assumes "y \<notin> set (lit ''https://www.'')"
  shows "re_search (y # l) s = plain_search (y # l) s"
proof (induction s)
  case Nil
  have "match_here (y # l) [] = match_literal (y # l) []"
    by (simp add: match_here_def match_scheme_def match_www_def lit_def)
  then show ?case by simp
next
  case (Cons c cs)
  show ?case
  proof (cases "match_here (y # l) (c # cs)")
    case None
    with match_here_None [OF None] Cons show ?thesis by simp
  next
    case (Some g)
    from match_here_cases [OF Some] obtain pre r where
      pre: "c # cs = pre @ r" "set pre \<subseteq> set (lit ''https://www.'')"
        "match_literal (y # l) r = Some g"
      by blast
    from pre(2) assms have "y \<notin> set pre" by auto
    then have "plain_search (y # l) (pre @ r) = plain_search (y # l) r"
      by (rule plain_search_skip)
    also have "\<dots> = Some g"
      using pre(3) by (rule plain_search_here)
    finally show ?thesis
      using Some by (simp add: pre(1) [symmetric])
  qed
qed

lemma pattern_head:
  "p \<in> set patterns \<Longrightarrow> \<exists>l. p = 121 # l"
  by (auto simp: patterns_def lit_def)

lemma pattern_head_free: "121 \<notin> set (lit ''https://www.'')"
  by (simp add: lit_def)

lemma re_search_extend:
  assumes "p \<in> set patterns" "re_search p url = Some g" "\<not> id_char sep"
  shows "re_search p (url @ sep # rest) = Some g"
proof -
  from pattern_head [OF assms(1)] obtain l where l: "p = 121 # l" by blast
  have plain: "re_search p s = plain_search p s" for s
    unfolding l using pattern_head_free by (rule re_search_plain)
  from assms(2) have "plain_search p url = Some g" by (simp add: plain)
  then have "plain_search p (url @ sep # rest) = Some g"
    using assms(3) by (rule plain_search_extend)
  then show ?thesis by (simp add: plain)
qed

lemma match_literal_straddle:
  assumes "match_literal l s = None" "match_literal l (s @ sep # rest) = Some g" "\<not> id_char sep"
  shows "sep \<in> set l"
proof -
  from match_literal_new [OF assms] have short: "length s < length l" .
  from assms(2) obtain r where "strip_prefix l (s @ sep # rest) = Some r"
    by (auto simp: match_literal_def split: option.splits)
  then have eq: "s @ sep # rest = l @ r" by (simp add: strip_prefix_Some)
  then have "(s @ sep # rest) ! length s = (l @ r) ! length s" by simp
  with short have "sep = l ! length s" by (simp add: nth_append)
  with short show ?thesis by simp
qed

lemma match_literal_sep:
  assumes "\<not> id_char sep" "sep \<notin> set l"
  shows "match_literal l (sep # rest) = None"
proof (cases l)
  case Nil
  with assms(1) show ?thesis by (simp add: match_literal_def match_group_def)
next
  case (Cons y l')
  with assms(2) show ?thesis by (simp add: match_literal_def)
qed

lemma plain_search_new:
  assumes "plain_search l s = None" "\<not> id_char sep" "sep \<notin> set l"
  shows "plain_search l (s @ sep # rest) = plain_search l rest"
  using assms(1)
proof (induction s)
  case Nil
  show ?case using match_literal_sep [OF assms(2,3)] by simp
next
  case (Cons c cs)
  from Cons.prems have here: "match_literal l (c # cs) = None" and tail: "plain_search l cs = None"
    by (simp_all split: option.splits)
  have "match_literal l ((c # cs) @ sep # rest) = None"
  proof (rule ccontr)
    assume "match_literal l ((c # cs) @ sep # rest) \<noteq> None"
    then obtain g where "match_literal l ((c # cs) @ sep # rest) = Some g" by auto
    from match_literal_straddle [OF here this assms(2)] assms(3) show False by simp
  qed
  with Cons.IH [OF tail] show ?case by simp
qed

lemma re_search_new:
  assumes "p \<in> set patterns" "re_search p url = None" "\<not> id_char sep" "sep \<notin> set p"
  shows "re_search p (url @ sep # rest) = re_search p rest"
proof -
  from pattern_head [OF assms(1)] obtain l where l: "p = 121 # l" by blast
  have plain: "re_search p s = plain_search p s" for s
    unfolding l using pattern_head_free by (rule re_search_plain)
  from assms(2) have "plain_search p url = None" by (simp add: plain)
  then have "plain_search p (url @ sep # rest) = plain_search p rest"
    using assms(3,4) by (rule plain_search_new)
  then show ?thesis by (simp add: plain)
qed

lemma first_match_None: "first_match ps url = None \<longleftrightarrow> (\<forall>p \<in> set ps. re_search p url = None)"
  by (induction ps) (auto split: option.splits)

lemma search_demo_url:
  "re_search (lit ''youtube.com/watch?v='') (lit ''https://youtu.be/90mj79GqWhc'') = None"
  "re_search (lit ''youtu.be/'') (lit ''https://youtu.be/90mj79GqWhc'') = Some (lit ''90mj79GqWhc'')"
  "re_search (lit ''youtube.com/embed/'') (lit ''https://youtu.be/90mj79GqWhc'') = None"
  by code_simp+

lemma id_demo_hijacked:
  "extract_video_id (lit ''https://youtu.be/ABC?u=youtube.com/watch?v=XYZ'') = Some (lit ''XYZ'')"
  by code_simp

lemma id_demo_short_ABC:
  "extract_video_id (lit ''https://youtu.be/ABC'') = Some (lit ''ABC'')"
  by code_simp

lemma extract_video_id_unfold:
  "extract_video_id url =
     (case re_search (lit ''youtube.com/watch?v='') url of
        Some g \<Rightarrow> Some g
      | None \<Rightarrow>
          (case re_search (lit ''youtu.be/'') url of
             Some g \<Rightarrow> Some g
           | None \<Rightarrow> re_search (lit ''youtube.com/embed/'') url))"
  by (simp add: extract_video_id_def patterns_def split: option.splits)

lemma extract_video_id_extend_watch:
  assumes "\<not> id_char sep" "re_search (lit ''youtube.com/watch?v='') url = Some g"
  shows "extract_video_id (url @ sep # rest) = Some g"
proof -
  have "lit ''youtube.com/watch?v='' \<in> set patterns"
    by (simp add: patterns_def)
  with assms have "re_search (lit ''youtube.com/watch?v='') (url @ sep # rest) = Some g"
    by (intro re_search_extend) simp_all
  then show ?thesis by (simp add: extract_video_id_unfold)
qed

lemma extract_video_id_extend_short:
  assumes "\<not> id_char sep" "re_search (lit ''youtu.be/'') url = Some g"
  shows "extract_video_id (url @ sep # rest) =
     (case re_search (lit ''youtube.com/watch?v='') (url @ sep # rest) of
        Some h \<Rightarrow> Some h | None \<Rightarrow> Some g)"
proof -
  have "lit ''youtu.be/'' \<in> set patterns"
    by (simp add: patterns_def)
  with assms have "re_search (lit ''youtu.be/'') (url @ sep # rest) = Some g"
    by (intro re_search_extend) simp_all
  then show ?thesis by (simp add: extract_video_id_unfold split: option.splits)
qed

lemma extract_video_id_extend_embed:
  assumes "\<not> id_char sep" "re_search (lit ''youtube.com/embed/'') url = Some g"
  shows "extract_video_id (url @ sep # rest) =
     (case re_search (lit ''youtube.com/watch?v='') (url @ sep # rest) of
        Some h \<Rightarrow> Some h
      | None \<Rightarrow>
          (case re_search (lit ''youtu.be/'') (url @ sep # rest) of
             Some h \<Rightarrow> Some h | None \<Rightarrow> Some g))"
proof -
  have "lit ''youtube.com/embed/'' \<in> set patterns"
    by (simp add: patterns_def)
  with assms have "re_search (lit ''youtube.com/embed/'') (url @ sep # rest) = Some g"
    by (intro re_search_extend) simp_all
  then show ?thesis by (simp add: extract_video_id_unfold split: option.splits)
qed

lemma pattern_separators:
  "\<not> id_char sep \<Longrightarrow> p \<in> set patterns \<Longrightarrow>
   sep \<in> set p \<longleftrightarrow> (sep = 63 \<and> p = lit ''youtube.com/watch?v='')"
  by (auto simp: patterns_def id_char_def lit_def newline_def)

lemma separators_excluded:
  "\<not> id_char (of_char CHR ''&'')" "\<not> id_char (of_char CHR ''?'')"
  "\<not> id_char (of_char CHR ''#'')"
  by (simp_all add: id_char_def lit_def)

lemma search_demo_watch:
  "re_search (lit ''youtube.com/watch?v='') (lit ''https://www.youtube.com/watch?v=90mj79GqWhc'')
     = Some (lit ''90mj79GqWhc'')"
  by code_simp

lemma search_demo_embed:
  "re_search (lit ''youtube.com/watch?v='') (lit ''https://www.youtube.com/embed/90mj79GqWhc'') = None"
  "re_search (lit ''youtu.be/'') (lit ''https://www.youtube.com/embed/90mj79GqWhc'') = None"
  "re_search (lit ''youtube.com/embed/'') (lit ''https://www.youtube.com/embed/90mj79GqWhc'')
     = Some (lit ''90mj79GqWhc'')"
  by code_simp+

lemma search_demo_straddle:
  "re_search (lit ''youtube.com/watch?v='') (lit ''https://youtu.be/ABCyoutube.com/watch'') = None"
  "re_search (lit ''youtu.be/'') (lit ''https://youtu.be/ABCyoutube.com/watch'')
     = Some (lit ''ABCyoutube.com/watch'')"
  by code_simp+

lemma search_demo_extended:
  "re_search (lit ''youtube.com/watch?v='')
     (lit ''https://youtu.be/90mj79GqWhc'' @ of_char CHR ''?'' # lit ''si=vsV7zFMErNt7uVSV'') = None"
  "re_search (lit ''youtube.com/watch?v='')
     (lit ''https://www.youtube.com/embed/90mj79GqWhc'' @ of_char CHR ''#'' # lit ''t=42s'') = None"
  "re_search (lit ''youtu.be/'')
     (lit ''https://www.youtube.com/embed/90mj79GqWhc'' @ of_char CHR ''#'' # lit ''t=42s'') = None"
  "re_search (lit ''youtube.com/watch?v='')
     (lit ''https://youtu.be/ABCyoutube.com/watch'' @ of_char CHR ''?'' # lit ''v=XYZ'')
     = Some (lit ''XYZ'')"
  by code_simp+

section \<open>Claims\<close>

text \<open>
  C1. \<open>chunk_text\<close> never splits a word over two chunks: the words of the chunks, chunk
  after chunk, are exactly the words of the input; and joining the chunks with single
  spaces and splitting the result on whitespace gives the words of the input again.
  This holds for every input string and every maximal chunk length.
\<close>

theorem chunk_text_keeps_words:
  "concat (map str_split (chunk_text self text)) = str_split text \<and>
   str_split (str_join space (chunk_text self text)) = str_split text"
proof -
  obtain gs where gs: "chunk_text self text = map (str_join space) gs" "[] \<notin> set gs"
      "concat gs = str_split text"
    using chunk_text_groups by blast
  have ok: "list_all word_ok (concat gs)"
    by (simp add: gs(3) str_split_word_ok)
  have "concat (map str_split (chunk_text self text)) = str_split text"
    by (simp only: gs(1) map_str_split_groups [OF ok] gs(3))
  moreover have "str_split (str_join space (chunk_text self text)) = str_split text"
  proof -
    have "str_join space (chunk_text self text) = str_join space (str_split text)"
      by (simp only: gs(1) str_join_concat [OF gs(2)] gs(3))
    then show ?thesis
      by (simp add: str_split_str_join str_split_word_ok)
  qed
  ultimately show ?thesis ..
qed

theorem chunk_text_keeps_words_witness:
  "chunk_text \<lparr>max_chunk_length = 3\<rparr> (lit ''a b c'') = [lit ''a'', lit ''b c''] \<and>
   str_split (str_join space (chunk_text \<lparr>max_chunk_length = 3\<rparr> (lit ''a b c'')))
     = [lit ''a'', lit ''b'', lit ''c'']"
  using chunk_text_keeps_words [of "\<lparr>max_chunk_length = 3\<rparr>" "lit ''a b c''"]
  by (simp add: chunk_text_def str_split_def space_def lit_def isspace_def)

text \<open>
  C2. Every chunk returned by \<open>chunk_text\<close> has at most
  \<open>max N (length of the longest word of the input)\<close> characters, for \<open>N\<close> the maximal chunk
  length. A word longer than \<open>N\<close> is alone in its chunk: it is a chunk, every chunk
  longer than \<open>N\<close> is one word of the input, and a chunk in which a word longer than \<open>N\<close>
  occurs is that word and nothing else. The chunk accumulated at the end of the input is
  emitted when it is not empty, so the last chunk ends with the last word of the input.
\<close>

theorem chunk_text_length_bound:
  "(\<forall>c \<in> set (chunk_text self text).
      int (length c) \<le> max (max_chunk_length self) (int (longest_word text))) \<and>
   (\<forall>w \<in> set (str_split text).
      max_chunk_length self < int (length w) \<longrightarrow> w \<in> set (chunk_text self text)) \<and>
   (\<forall>c \<in> set (chunk_text self text).
      max_chunk_length self < int (length c) \<longrightarrow> c \<in> set (str_split text)) \<and>
   (\<forall>c \<in> set (chunk_text self text). \<forall>w \<in> set (str_split c).
      max_chunk_length self < int (length w) \<longrightarrow> c = w) \<and>
   (str_split text \<noteq> [] \<longrightarrow>
      chunk_text self text \<noteq> [] \<and>
      last (str_split (last (chunk_text self text))) = last (str_split text)) \<and>
   (case chunk_loop self (str_split text) [] [] 0 of
      (chunks, current_chunk, current_length) \<Rightarrow>
        current_chunk \<noteq> [] \<longrightarrow>
        chunk_text self text = chunks @ [str_join space current_chunk])"
proof (intro conjI)
  let ?B = "max (max_chunk_length self) (int (longest_word text))"
  have "list_all (\<lambda>w. int (length w) \<le> ?B) (str_split text)"
    unfolding list_all_iff
  proof
    fix w assume "w \<in> set (str_split text)"
    then have "length w \<le> longest_word text" by (rule longest_word_ge)
    then show "int (length w) \<le> ?B" by simp
  qed
  then have "list_all (\<lambda>c. int (length c) \<le> ?B) (chunk_text self text)"
    by (rule chunk_text_bound) simp
  then show "\<forall>c \<in> set (chunk_text self text). int (length c) \<le> ?B"
    by (simp add: list_all_iff)
next
  show "\<forall>w \<in> set (str_split text).
      max_chunk_length self < int (length w) \<longrightarrow> w \<in> set (chunk_text self text)"
    using chunk_text_alone by blast
next
  show "\<forall>c \<in> set (chunk_text self text).
      max_chunk_length self < int (length c) \<longrightarrow> c \<in> set (str_split text)"
    using chunk_text_long_chunk by blast
next
  show "\<forall>c \<in> set (chunk_text self text). \<forall>w \<in> set (str_split c).
      max_chunk_length self < int (length w) \<longrightarrow> c = w"
    using chunk_text_long_word_alone by blast
next
  show "str_split text \<noteq> [] \<longrightarrow>
      chunk_text self text \<noteq> [] \<and>
      last (str_split (last (chunk_text self text))) = last (str_split text)"
    using chunk_text_last by blast
next
  show "case chunk_loop self (str_split text) [] [] 0 of
      (chunks, current_chunk, current_length) \<Rightarrow>
        current_chunk \<noteq> [] \<longrightarrow>
        chunk_text self text = chunks @ [str_join space current_chunk]"
    by (simp add: chunk_text_def split: prod.splits)
qed

theorem chunk_text_length_bound_witness:
  "chunk_text \<lparr>max_chunk_length = 4\<rparr> (lit ''ab abcdefg c d'')
     = [lit ''ab'', lit ''abcdefg'', lit ''c d''] \<and>
   longest_word (lit ''ab abcdefg c d'') = 7 \<and>
   str_split (lit ''ab abcdefg c d'') = [lit ''ab'', lit ''abcdefg'', lit ''c'', lit ''d''] \<and>
   chunk_text \<lparr>max_chunk_length = 4\<rparr> (lit ''abcdefghijkl abcdefg x abcdefg'')
     = [lit ''abcdefghijkl'', lit ''abcdefg'', lit ''x'', lit ''abcdefg'']"
  using chunk_text_length_bound [of "\<lparr>max_chunk_length = 4\<rparr>" "lit ''ab abcdefg c d''"]
    chunk_text_length_bound [of "\<lparr>max_chunk_length = 4\<rparr>" "lit ''abcdefghijkl abcdefg x abcdefg''"]
  by (simp only: demo_chunks_long)

text \<open>
  C10. For every input string consisting only of whitespace (the empty string included)
  \<open>chunk_text\<close> returns the empty list, and every chunk it returns for any input is a
  non-empty string that neither starts nor ends with whitespace (stripping it changes
  nothing): no empty chunk is ever emitted.
\<close>

theorem chunk_text_no_empty_chunk:
  "(list_all isspace text \<longrightarrow> chunk_text self text = []) \<and>
   (\<forall>ch \<in> set (chunk_text self text).
      ch \<noteq> [] \<and> \<not> isspace (hd ch) \<and> \<not> isspace (last ch) \<and> str_strip ch = ch)"
proof
  show "list_all isspace text \<longrightarrow> chunk_text self text = []"
    by (simp add: chunk_text_def str_split_def split_from_all_space)
next
  have "list_all chunk_ok (chunk_text self text)"
    by (rule chunk_text_chunk_ok)
  then show "\<forall>ch \<in> set (chunk_text self text).
      ch \<noteq> [] \<and> \<not> isspace (hd ch) \<and> \<not> isspace (last ch) \<and> str_strip ch = ch"
    by (auto simp: list_all_iff str_strip_chunk_ok) (auto simp: chunk_ok_def)
qed

theorem chunk_text_no_empty_chunk_witness:
  "chunk_text \<lparr>max_chunk_length = 5\<rparr> (lit '' '') = [] \<and>
   chunk_text \<lparr>max_chunk_length = 5\<rparr> (lit '' ab  cd e '') = [lit ''ab'', lit ''cd e''] \<and>
   str_strip (lit ''cd e'') = lit ''cd e''"
  using chunk_text_no_empty_chunk [of "lit '' ''" "\<lparr>max_chunk_length = 5\<rparr>"]
    chunk_text_no_empty_chunk [of "lit '' ab  cd e ''" "\<lparr>max_chunk_length = 5\<rparr>"]
  by (simp add: chunk_text_def str_split_def space_def lit_def isspace_def)

text \<open>
  C5. Every \<open>Success\<close> record that \<open>extract_single_transcript\<close> returns has a segment
  count equal to the length of its segments, and its full text is the texts of its
  segments (the normalized texts of the entries the service returned) joined by single
  spaces, with the whitespace at both ends removed.
\<close>

theorem success_record_invariant:
  assumes "extract_single_transcript get_transcript world video_id =
             (Success v full_text segments total_segments, world')"
  shows "total_segments = length segments \<and>
         full_text = str_strip (str_join space (map seg_text segments)) \<and>
         v = video_id \<and>
         (\<exists>transcript_list. get_transcript world video_id = (Inr transcript_list, world') \<and>
            map seg_text segments = map (\<lambda>entry. clean_transcript_text (cue_text entry)) transcript_list \<and>
            map seg_start segments = map cue_start transcript_list)"
proof (cases "get_transcript world video_id")
  case (Pair outcome w)
  show ?thesis
  proof (cases outcome)
    case (Inl e)
    with Pair assms show ?thesis by (simp add: extract_single_transcript_def)
  next
    case (Inr transcript_list)
    let ?texts = "map (\<lambda>e. clean_transcript_text (cue_text e)) transcript_list"
    from Pair Inr assms have eq: "segments = map make_segment transcript_list"
      "full_text = str_strip (concat (map (\<lambda>e. clean_transcript_text (cue_text e) @ space) transcript_list))"
      "total_segments = length segments" "v = video_id" "w = world'"
      by (auto simp: extract_single_transcript_def transcript_loop_eq)
    have "concat (map (\<lambda>e. clean_transcript_text (cue_text e) @ space) transcript_list)
          = concat (map (\<lambda>t. t @ space) ?texts)"
      by (simp add: comp_def)
    then have ft: "full_text = str_strip (str_join space ?texts)"
      by (simp only: eq(2) str_strip_concat_space)
    have texts: "map seg_text segments = ?texts"
      by (simp add: eq(1) make_segment_def)
    have starts: "map seg_start segments = map cue_start transcript_list"
      by (simp add: eq(1) make_segment_def)
    have "full_text = str_strip (str_join space (map seg_text segments))"
      by (simp only: ft texts)
    moreover have "get_transcript world video_id = (Inr transcript_list, world')"
      using Pair Inr eq(5) by simp
    ultimately show ?thesis
      using eq(3,4) texts starts by blast
  qed
qed

theorem success_record_invariant_witness:
  "extract_single_transcript demo_service () (lit ''ABC123'') =
     (Success (lit ''ABC123'') (lit ''hello there  world'')
        [\<lparr>seg_start = 0, seg_duration = 2, seg_text = lit ''hello there''\<rparr>,
         \<lparr>seg_start = 2, seg_duration = 0, seg_text = []\<rparr>,
         \<lparr>seg_start = 5, seg_duration = 1, seg_text = lit ''world''\<rparr>] 3, ()) \<and>
   lit ''hello there  world'' = str_strip (str_join space [lit ''hello there'', [], lit ''world''])"
proof -
  from success_record_invariant [OF demo_service_run] demo_service_run
  show ?thesis by simp
qed

text \<open>
  C4. When the captioning service raises an error for a video identifier,
  \<open>extract_single_transcript\<close> returns a \<open>Failed\<close> record (status \<open>failed\<close>) with that
  identifier and the error's description, and raises nothing; in the batch loop the
  record is stored under the identifier and the loop goes on with the remaining URLs,
  so that the batch has a key for every URL of the input.
\<close>

theorem fetch_failure_contained:
  "(get_transcript world video_id = (Inl e, world') \<longrightarrow>
      extract_single_transcript get_transcript world video_id =
        (Failed (Some video_id) e, world') \<and>
      status (fst (extract_single_transcript get_transcript world video_id)) = lit ''failed'') \<and>
   (extract_video_id url = Some video_id \<and> get_transcript world video_id = (Inl e, world') \<longrightarrow>
      extract_loop get_transcript (url # urls) results world =
        extract_loop get_transcript urls
          (AList.update video_id (Failed (Some video_id) e) results) world') \<and>
   set (map fst (fst (extract_transcripts get_transcript world urls))) = batch_key ` set urls"
proof (intro conjI impI)
  assume raised: "get_transcript world video_id = (Inl e, world')"
  then show single: "extract_single_transcript get_transcript world video_id =
        (Failed (Some video_id) e, world')"
    by (simp add: extract_single_transcript_def)
  then show "status (fst (extract_single_transcript get_transcript world video_id)) = lit ''failed''"
    by (simp add: status_Failed)
next
  assume "extract_video_id url = Some video_id \<and> get_transcript world video_id = (Inl e, world')"
  then have "extract_video_id url = Some video_id" "video_id \<noteq> []"
    "extract_single_transcript get_transcript world video_id = (Failed (Some video_id) e, world')"
    using extract_video_id_Some [of url video_id] by (simp_all add: extract_single_transcript_def)
  then show "extract_loop get_transcript (url # urls) results world =
        extract_loop get_transcript urls
          (AList.update video_id (Failed (Some video_id) e) results) world'"
    by simp
next
  show "set (map fst (fst (extract_transcripts get_transcript world urls))) = batch_key ` set urls"
    by (simp only: extract_transcripts_keys set_rev set_remdups set_map)
qed

theorem fetch_failure_contained_witness:
  "demo_service () (lit ''XYZ'') = (Inl (lit ''no captions''), ()) \<and>
   extract_single_transcript demo_service () (lit ''XYZ'') =
     (Failed (Some (lit ''XYZ'')) (lit ''no captions''), ()) \<and>
   map fst (fst (extract_transcripts demo_service ()
     [lit ''https://youtu.be/XYZ'', lit ''https://youtu.be/ABC123''])) = [lit ''XYZ'', lit ''ABC123'']"
proof -
  have raised: "demo_service () (lit ''XYZ'') = (Inl (lit ''no captions''), ())"
    by (simp add: demo_service_def lit_demo_distinct)
  have keys: "map fst (fst (extract_transcripts demo_service ()
     [lit ''https://youtu.be/XYZ'', lit ''https://youtu.be/ABC123''])) = [lit ''XYZ'', lit ''ABC123'']"
    by (simp add: extract_transcripts_keys batch_key_def id_demo_XYZ id_demo_ABC123
        lit_demo_distinct)
  from fetch_failure_contained [of demo_service "()" "lit ''XYZ''" "lit ''no captions''" "()"
      "lit ''https://youtu.be/XYZ''" "[lit ''https://youtu.be/ABC123'']" "[]"] raised keys
  show ?thesis by simp
qed

text \<open>
  C3, as the code has it. \<open>extract_transcripts\<close> goes through the URLs in input order and
  stores one entry per URL by dictionary assignment: under the identifier, the fetcher's
  result (fetched in the state the earlier URLs left), when the parser yields one;
  otherwise under the raw URL a failed entry with the error message
  \<open>Invalid YouTube URL\<close>. A later URL with the same key replaces the entry, so the
  returned batch holds, for every URL whose key no later URL produces again, exactly
  that entry; the keys of the batch are the keys of the URLs in the order of their
  first occurrence.
\<close>

theorem extract_transcripts_entries:
  assumes "i < length urls"
    and "\<forall>j. i < j \<and> j < length urls \<longrightarrow> batch_key (urls ! j) \<noteq> batch_key (urls ! i)"
  shows "(case extract_video_id (urls ! i) of
            Some video_id \<Rightarrow>
              map_of (fst (extract_transcripts get_transcript world urls)) video_id =
                Some (fst (extract_single_transcript get_transcript
                             (snd (extract_transcripts get_transcript world (take i urls)))
                             video_id))
          | None \<Rightarrow>
              map_of (fst (extract_transcripts get_transcript world urls)) (urls ! i) =
                Some (Failed None (lit ''Invalid YouTube URL''))) \<and>
         status (Failed None (lit ''Invalid YouTube URL'') :: 't video_record) = lit ''failed'' \<and>
         map fst (fst (extract_transcripts get_transcript world urls)) =
           rev (remdups (rev (map batch_key urls)))"
proof -
  from extract_transcripts_lookup [OF assms, of get_transcript world]
  have "(case extract_video_id (urls ! i) of
            Some video_id \<Rightarrow>
              map_of (fst (extract_transcripts get_transcript world urls)) video_id =
                Some (fst (extract_single_transcript get_transcript
                             (snd (extract_transcripts get_transcript world (take i urls)))
                             video_id))
          | None \<Rightarrow>
              map_of (fst (extract_transcripts get_transcript world urls)) (urls ! i) =
                Some (Failed None (lit ''Invalid YouTube URL'')))"
    by (simp add: batch_key_def batch_entry_def invalid_url_def split: option.splits)
  then show ?thesis
    by (simp add: status_Failed extract_transcripts_keys)
qed

theorem extract_transcripts_entries_witness:
  "(0::nat) < length demo_urls \<and>
   extract_video_id (demo_urls ! 0) = Some (lit ''ABC123'') \<and>
   extract_video_id (demo_urls ! 1) = None \<and>
   map_of (fst (extract_transcripts demo_service () demo_urls)) (lit ''ABC123'') =
     Some (fst (extract_single_transcript demo_service () (lit ''ABC123''))) \<and>
   map fst (fst (extract_transcripts demo_service () demo_urls)) = [lit ''ABC123'', lit ''not a url'']"
proof -
  have len: "(0::nat) < length demo_urls"
    by (simp add: demo_urls_def)
  have ids: "extract_video_id (demo_urls ! 0) = Some (lit ''ABC123'')"
    "extract_video_id (demo_urls ! 1) = None"
    by (simp_all add: demo_urls_def id_demo_ABC123 id_demo_not_a_url)
  have later: "\<forall>j. 0 < j \<and> j < length demo_urls \<longrightarrow>
      batch_key (demo_urls ! j) \<noteq> batch_key (demo_urls ! 0)"
    by (auto simp: demo_urls_def batch_key_def id_demo_ABC123 id_demo_not_a_url
        lit_demo_distinct less_Suc_eq)
  from extract_transcripts_entries [OF len later, of demo_service "()"] len ids
  show ?thesis
    by (simp add: demo_urls_batch)
qed

theorem extract_transcripts_entries_counterexample:
  "extract_video_id (lit ''https://youtu.be/abc'') = Some (lit ''abc'') \<and>
   fst (extract_single_transcript demo_service () (lit ''abc'')) =
     Failed (Some (lit ''abc'')) (lit ''no captions'') \<and>
   fst (extract_transcripts demo_service () [lit ''https://youtu.be/abc'', lit ''abc'']) =
     [(lit ''abc'', Failed None (lit ''Invalid YouTube URL''))] \<and>
   map_of (fst (extract_transcripts demo_service () [lit ''https://youtu.be/abc'', lit ''abc'']))
     (lit ''abc'') \<noteq> Some (fst (extract_single_transcript demo_service () (lit ''abc'')))"
  by (simp add: extract_transcripts_def id_demo_abc id_demo_raw_abc demo_service_fails
      lit_demo_distinct invalid_url_def)

text \<open>
  C6. \<open>prepare_for_training\<close> returns, in batch order, for every \<open>Success\<close> record the
  chunks of its full text, numbered \<open>0, 1, 2, \<dots>\<close> anew for every video and tagged with
  the video's key, and nothing for a \<open>Failed\<close> record: in a batch (whose keys are
  distinct) no chunk carries the key of a record whose status is not \<open>success\<close>.
\<close>

theorem prepare_for_training_chunks:
  "prepare_for_training self transcripts =
     concat (map (\<lambda>(video_id, data).
        case data of
          Success _ full_text _ _ \<Rightarrow>
            map (\<lambda>i. \<lparr>chunk_video_id = video_id, chunk_index = i,
                       chunk_text_of = chunk_text self full_text ! i\<rparr>)
              [0..<length (chunk_text self full_text)]
        | Failed _ _ \<Rightarrow> []) transcripts) \<and>
   (distinct (map fst transcripts) \<longrightarrow>
      (\<forall>(video_id, data) \<in> set transcripts.
         status data \<noteq> lit ''success'' \<longrightarrow>
         video_id \<notin> chunk_video_id ` set (prepare_for_training self transcripts)))"
proof
  have rc: "record_chunks self = (\<lambda>(video_id, data).
        case data of
          Success _ full_text _ _ \<Rightarrow>
            map (\<lambda>i. \<lparr>chunk_video_id = video_id, chunk_index = i,
                       chunk_text_of = chunk_text self full_text ! i\<rparr>)
              [0..<length (chunk_text self full_text)]
        | Failed _ _ \<Rightarrow> [])"
    by (rule ext) (simp add: record_chunks_def)
  show "prepare_for_training self transcripts =
     concat (map (\<lambda>(video_id, data).
        case data of
          Success _ full_text _ _ \<Rightarrow>
            map (\<lambda>i. \<lparr>chunk_video_id = video_id, chunk_index = i,
                       chunk_text_of = chunk_text self full_text ! i\<rparr>)
              [0..<length (chunk_text self full_text)]
        | Failed _ _ \<Rightarrow> []) transcripts)"
    unfolding prepare_for_training_def training_loop_eq rc by simp
next
  show "distinct (map fst transcripts) \<longrightarrow>
      (\<forall>(video_id, data) \<in> set transcripts.
         status data \<noteq> lit ''success'' \<longrightarrow>
         video_id \<notin> chunk_video_id ` set (prepare_for_training self transcripts))"
  proof -
    have "chunk_video_id c \<noteq> video_id"
      if dist: "distinct (map fst transcripts)"
        and mem: "(video_id, data) \<in> set transcripts"
        and nosucc: "status data \<noteq> lit ''success''"
        and c: "c \<in> set (prepare_for_training self transcripts)"
      for video_id data c
    proof
      assume key: "chunk_video_id c = video_id"
      from training_chunk_source [OF c] obtain data' where
        data': "(chunk_video_id c, data') \<in> set transcripts" "status data' = lit ''success''"
        by blast
      from dist mem data'(1) key have "data' = data"
        by (metis eq_key_imp_eq_value)
      with nosucc data'(2) show False by simp
    qed
    then show ?thesis by blast
  qed
qed

theorem prepare_for_training_chunks_witness:
  "distinct (map fst demo_batch) \<and>
   prepare_for_training \<lparr>max_chunk_length = 5\<rparr> demo_batch =
     [\<lparr>chunk_video_id = lit ''v1'', chunk_index = 0, chunk_text_of = lit ''ab''\<rparr>,
      \<lparr>chunk_video_id = lit ''v1'', chunk_index = 1, chunk_text_of = lit ''cd e''\<rparr>,
      \<lparr>chunk_video_id = lit ''v2'', chunk_index = 0, chunk_text_of = lit ''xy''\<rparr>]"
proof -
  have dist: "distinct (map fst demo_batch)"
    by (simp add: demo_batch_def lit_def)
  have upt2: "[0..<2] = [0, Suc 0]"
    by (simp add: upt_rec)
  from prepare_for_training_chunks [of "\<lparr>max_chunk_length = 5\<rparr>" demo_batch] dist
  show ?thesis
    by (simp add: demo_batch_def demo_chunks upt2)
qed

text \<open>
  C7. For every batch and destination name, \<open>save_transcripts\<close> with a format outside
  \<open>json\<close>, \<open>txt\<close>, \<open>csv\<close> raises the error for an unsupported format (a \<^verbatim>\<open>ValueError\<close> in
  the source) and leaves the file system as it was; with a format of the set it does
  not raise that error.
\<close>

theorem save_unsupported_format:
  "(format \<notin> {lit ''json'', lit ''txt'', lit ''csv''} \<longrightarrow>
      save_transcripts lib self fs transcripts format filename = (Inl (ValueError format), fs)) \<and>
   (format \<in> {lit ''json'', lit ''txt'', lit ''csv''} \<longrightarrow>
      (\<forall>m. fst (save_transcripts lib self fs transcripts format filename) \<noteq> Inl (ValueError m)))"
proof (intro conjI impI)
  assume "format \<notin> {lit ''json'', lit ''txt'', lit ''csv''}"
  then show "save_transcripts lib self fs transcripts format filename =
      (Inl (ValueError format), fs)"
    by (simp add: save_transcripts_def supported_formats_set)
next
  assume supported: "format \<in> {lit ''json'', lit ''txt'', lit ''csv''}"
  show "\<forall>m. fst (save_transcripts lib self fs transcripts format filename) \<noteq> Inl (ValueError m)"
    using supported by (simp add: save_not_ValueError supported_formats_set)
qed

theorem save_unsupported_format_witness:
  "save_transcripts demo_lib demo_extractor fs_output [] (lit ''bogus'') (lit ''x'') =
     (Inl (ValueError (lit ''bogus'')), fs_output) \<and>
   save_transcripts demo_lib demo_extractor fs_output [] (lit ''txt'') (lit ''x'') =
     (Inr (lit ''output/x.txt''),
      \<lparr>dirs = {lit ''output''}, files = [lit ''output/x.txt'' \<mapsto> []]\<rparr>)"
  using save_unsupported_format [of "lit ''bogus''" demo_lib demo_extractor fs_output "[]" "lit ''x''"]
    save_unsupported_format [of "lit ''txt''" demo_lib demo_extractor fs_output "[]" "lit ''x''"]
  by (simp add: demo_formats demo_save_txt)




text \<open>
  C8, as the code has it. \<open>extract_video_id\<close> tries the patterns for \<^verbatim>\<open>watch?v=\<close>,
  \<^verbatim>\<open>youtu.be/\<close> and \<^verbatim>\<open>embed/\<close> in this order and returns group 1 of the first pattern that
  matches, which is not empty and has none of the characters \<^verbatim>\<open>&\<close>, newline, \<^verbatim>\<open>?\<close> and
  \<^verbatim>\<open>#\<close>; it returns \<open>None\<close> exactly when no pattern matches. A pattern is searched
  anywhere in the string. Text appended behind one of the four characters does not
  change what a pattern that matched finds, and only a pattern tried earlier can take
  the result over: the identifier of a \<^verbatim>\<open>watch?v=\<close> URL never changes; that of a
  \<^verbatim>\<open>youtu.be/\<close> URL stays unless the \<^verbatim>\<open>watch?v=\<close> pattern matches the extended URL, and is
  then what that pattern finds there; that of an \<^verbatim>\<open>embed/\<close> URL stays unless the
  \<^verbatim>\<open>watch?v=\<close> or the \<^verbatim>\<open>youtu.be/\<close> pattern matches the extended URL, and is then what
  the first of the two that matches finds there. A pattern that did not match the URL
  finds in the extended URL what it finds in the text behind the separating
  character, except the \<^verbatim>\<open>watch?v=\<close> pattern behind a \<^verbatim>\<open>?\<close>: its literal contains the
  \<^verbatim>\<open>?\<close> and can lie across the join.
\<close>

theorem extract_video_id_patterns:
  "extract_video_id url =
     (case re_search (lit ''youtube.com/watch?v='') url of
        Some g \<Rightarrow> Some g
      | None \<Rightarrow>
          (case re_search (lit ''youtu.be/'') url of
             Some g \<Rightarrow> Some g
           | None \<Rightarrow> re_search (lit ''youtube.com/embed/'') url)) \<and>
   (extract_video_id url = Some g \<longrightarrow> g \<noteq> [] \<and> list_all id_char g) \<and>
   (extract_video_id url = None \<longleftrightarrow> (\<forall>p \<in> set patterns. re_search p url = None)) \<and>
   (\<not> id_char sep \<and> p \<in> set patterns \<and> re_search p url = Some g \<longrightarrow>
      re_search p (url @ sep # rest) = Some g) \<and>
   (\<not> id_char sep \<and> re_search (lit ''youtube.com/watch?v='') url = Some g \<longrightarrow>
      extract_video_id url = Some g \<and>
      extract_video_id (url @ sep # rest) = Some g) \<and>
   (\<not> id_char sep \<and> re_search (lit ''youtube.com/watch?v='') url = None \<and>
    re_search (lit ''youtu.be/'') url = Some g \<longrightarrow>
      extract_video_id url = Some g \<and>
      extract_video_id (url @ sep # rest) =
        (case re_search (lit ''youtube.com/watch?v='') (url @ sep # rest) of
           Some h \<Rightarrow> Some h
         | None \<Rightarrow> Some g)) \<and>
   (\<not> id_char sep \<and> re_search (lit ''youtube.com/watch?v='') url = None \<and>
    re_search (lit ''youtu.be/'') url = None \<and>
    re_search (lit ''youtube.com/embed/'') url = Some g \<longrightarrow>
      extract_video_id url = Some g \<and>
      extract_video_id (url @ sep # rest) =
        (case re_search (lit ''youtube.com/watch?v='') (url @ sep # rest) of
           Some h \<Rightarrow> Some h
         | None \<Rightarrow>
             (case re_search (lit ''youtu.be/'') (url @ sep # rest) of
                Some h \<Rightarrow> Some h
              | None \<Rightarrow> Some g))) \<and>
   (\<not> id_char sep \<and> p \<in> set patterns \<and> re_search p url = None \<and>
    (p = lit ''youtube.com/watch?v='' \<longrightarrow> sep \<noteq> of_char CHR ''?'') \<longrightarrow>
      re_search p (url @ sep # rest) = re_search p rest)"
proof (intro conjI)
  show "extract_video_id url =
     (case re_search (lit ''youtube.com/watch?v='') url of
        Some g \<Rightarrow> Some g
      | None \<Rightarrow>
          (case re_search (lit ''youtu.be/'') url of
             Some g \<Rightarrow> Some g
           | None \<Rightarrow> re_search (lit ''youtube.com/embed/'') url))"
    by (rule extract_video_id_unfold)
next
  show "extract_video_id url = Some g \<longrightarrow> g \<noteq> [] \<and> list_all id_char g"
    using extract_video_id_Some by blast
next
  show "extract_video_id url = None \<longleftrightarrow> (\<forall>p \<in> set patterns. re_search p url = None)"
    by (simp only: extract_video_id_def first_match_None)
next
  show "\<not> id_char sep \<and> p \<in> set patterns \<and> re_search p url = Some g \<longrightarrow>
      re_search p (url @ sep # rest) = Some g"
    using re_search_extend by blast
next
  show "\<not> id_char sep \<and> re_search (lit ''youtube.com/watch?v='') url = Some g \<longrightarrow>
      extract_video_id url = Some g \<and>
      extract_video_id (url @ sep # rest) = Some g"
    using extract_video_id_extend_watch by (simp add: extract_video_id_unfold)
next
  show "\<not> id_char sep \<and> re_search (lit ''youtube.com/watch?v='') url = None \<and>
    re_search (lit ''youtu.be/'') url = Some g \<longrightarrow>
      extract_video_id url = Some g \<and>
      extract_video_id (url @ sep # rest) =
        (case re_search (lit ''youtube.com/watch?v='') (url @ sep # rest) of
           Some h \<Rightarrow> Some h
         | None \<Rightarrow> Some g)"
    using extract_video_id_extend_short [of sep url g rest]
    by (simp add: extract_video_id_unfold)
next
  show "\<not> id_char sep \<and> re_search (lit ''youtube.com/watch?v='') url = None \<and>
    re_search (lit ''youtu.be/'') url = None \<and>
    re_search (lit ''youtube.com/embed/'') url = Some g \<longrightarrow>
      extract_video_id url = Some g \<and>
      extract_video_id (url @ sep # rest) =
        (case re_search (lit ''youtube.com/watch?v='') (url @ sep # rest) of
           Some h \<Rightarrow> Some h
         | None \<Rightarrow>
             (case re_search (lit ''youtu.be/'') (url @ sep # rest) of
                Some h \<Rightarrow> Some h
              | None \<Rightarrow> Some g))"
    using extract_video_id_extend_embed [of sep url g rest]
    by (simp add: extract_video_id_unfold)
next
  show "\<not> id_char sep \<and> p \<in> set patterns \<and> re_search p url = None \<and>
    (p = lit ''youtube.com/watch?v='' \<longrightarrow> sep \<noteq> of_char CHR ''?'') \<longrightarrow>
      re_search p (url @ sep # rest) = re_search p rest"
  proof
    assume h: "\<not> id_char sep \<and> p \<in> set patterns \<and> re_search p url = None \<and>
      (p = lit ''youtube.com/watch?v='' \<longrightarrow> sep \<noteq> of_char CHR ''?'')"
    then have "sep \<notin> set p"
      using pattern_separators [of sep p] by auto
    with h show "re_search p (url @ sep # rest) = re_search p rest"
      by (intro re_search_new) simp_all
  qed
qed

theorem extract_video_id_patterns_witness:
  "extract_video_id (lit ''https://www.youtube.com/watch?v=90mj79GqWhc'') = Some (lit ''90mj79GqWhc'') \<and>
   extract_video_id (lit ''https://www.youtube.com/watch?v=90mj79GqWhc'' @ lit ''&t=42s'')
     = Some (lit ''90mj79GqWhc'') \<and>
   extract_video_id (lit ''https://youtu.be/90mj79GqWhc'') = Some (lit ''90mj79GqWhc'') \<and>
   extract_video_id (lit ''https://youtu.be/90mj79GqWhc'' @ lit ''?si=vsV7zFMErNt7uVSV'')
     = Some (lit ''90mj79GqWhc'') \<and>
   extract_video_id (lit ''https://www.youtube.com/embed/90mj79GqWhc'') = Some (lit ''90mj79GqWhc'') \<and>
   extract_video_id (lit ''https://www.youtube.com/embed/90mj79GqWhc'' @ lit ''#t=42s'')
     = Some (lit ''90mj79GqWhc'') \<and>
   extract_video_id (lit ''https://youtu.be/ABCyoutube.com/watch'') = Some (lit ''ABCyoutube.com/watch'') \<and>
   extract_video_id (lit ''https://youtu.be/ABCyoutube.com/watch'' @ lit ''?v=XYZ'') = Some (lit ''XYZ'')"
proof -
  note seps = separators_excluded
  from extract_video_id_patterns [of "lit ''https://www.youtube.com/watch?v=90mj79GqWhc''"
      "lit ''90mj79GqWhc''" "of_char CHR ''&''" "lit ''youtube.com/watch?v=''" "lit ''t=42s''"]
    seps search_demo_watch
  have watch: "extract_video_id (lit ''https://www.youtube.com/watch?v=90mj79GqWhc'') =
        Some (lit ''90mj79GqWhc'') \<and>
      extract_video_id (lit ''https://www.youtube.com/watch?v=90mj79GqWhc'' @
        of_char CHR ''&'' # lit ''t=42s'') = Some (lit ''90mj79GqWhc'')"
    by blast
  from extract_video_id_patterns [of "lit ''https://youtu.be/90mj79GqWhc''"
      "lit ''90mj79GqWhc''" "of_char CHR ''?''" "lit ''youtu.be/''" "lit ''si=vsV7zFMErNt7uVSV''"]
    seps search_demo_url
  have short: "extract_video_id (lit ''https://youtu.be/90mj79GqWhc'') =
        Some (lit ''90mj79GqWhc'') \<and>
      extract_video_id (lit ''https://youtu.be/90mj79GqWhc'' @
        of_char CHR ''?'' # lit ''si=vsV7zFMErNt7uVSV'') =
      (case re_search (lit ''youtube.com/watch?v='') (lit ''https://youtu.be/90mj79GqWhc'' @
          of_char CHR ''?'' # lit ''si=vsV7zFMErNt7uVSV'') of
         Some h \<Rightarrow> Some h | None \<Rightarrow> Some (lit ''90mj79GqWhc''))"
    by blast
  from extract_video_id_patterns [of "lit ''https://www.youtube.com/embed/90mj79GqWhc''"
      "lit ''90mj79GqWhc''" "of_char CHR ''#''" "lit ''youtube.com/watch?v=''" "lit ''t=42s''"]
    seps search_demo_embed
  have embed: "extract_video_id (lit ''https://www.youtube.com/embed/90mj79GqWhc'') =
        Some (lit ''90mj79GqWhc'') \<and>
      extract_video_id (lit ''https://www.youtube.com/embed/90mj79GqWhc'' @
        of_char CHR ''#'' # lit ''t=42s'') =
      (case re_search (lit ''youtube.com/watch?v='') (lit ''https://www.youtube.com/embed/90mj79GqWhc'' @
          of_char CHR ''#'' # lit ''t=42s'') of
         Some h \<Rightarrow> Some h
       | None \<Rightarrow>
           (case re_search (lit ''youtu.be/'') (lit ''https://www.youtube.com/embed/90mj79GqWhc'' @
               of_char CHR ''#'' # lit ''t=42s'') of
              Some h \<Rightarrow> Some h | None \<Rightarrow> Some (lit ''90mj79GqWhc'')))"
    by blast
  from extract_video_id_patterns [of "lit ''https://youtu.be/ABCyoutube.com/watch''"
      "lit ''ABCyoutube.com/watch''" "of_char CHR ''?''" "lit ''youtu.be/''" "lit ''v=XYZ''"]
    seps search_demo_straddle
  have straddle: "extract_video_id (lit ''https://youtu.be/ABCyoutube.com/watch'') =
        Some (lit ''ABCyoutube.com/watch'') \<and>
      extract_video_id (lit ''https://youtu.be/ABCyoutube.com/watch'' @
        of_char CHR ''?'' # lit ''v=XYZ'') =
      (case re_search (lit ''youtube.com/watch?v='') (lit ''https://youtu.be/ABCyoutube.com/watch'' @
          of_char CHR ''?'' # lit ''v=XYZ'') of
         Some h \<Rightarrow> Some h | None \<Rightarrow> Some (lit ''ABCyoutube.com/watch''))"
    by blast
  have cons: "lit ''&t=42s'' = of_char CHR ''&'' # lit ''t=42s''"
    "lit ''?si=vsV7zFMErNt7uVSV'' = of_char CHR ''?'' # lit ''si=vsV7zFMErNt7uVSV''"
    "lit ''#t=42s'' = of_char CHR ''#'' # lit ''t=42s''"
    "lit ''?v=XYZ'' = of_char CHR ''?'' # lit ''v=XYZ''"
    by (simp_all add: lit_def)
  from watch short embed straddle show ?thesis
    by (simp only: cons search_demo_extended option.case)
qed

theorem extract_video_id_patterns_counterexample:
  "extract_video_id (lit ''https://youtu.be/ABC'') = Some (lit ''ABC'') \<and>
   lit ''https://youtu.be/ABC?u=youtube.com/watch?v=XYZ'' =
     lit ''https://youtu.be/ABC'' @ 63 # lit ''u=youtube.com/watch?v=XYZ'' \<and>
   extract_video_id (lit ''https://youtu.be/ABC?u=youtube.com/watch?v=XYZ'') = Some (lit ''XYZ'') \<and>
   lit ''XYZ'' \<noteq> lit ''ABC''"
  by (simp add: id_demo_short_ABC id_demo_hijacked) (simp add: lit_def)

end
